theory Spec2Isabelle
  imports Main "HOL-Library.Sublist" "HOL-Library.Multiset"
begin

section \<open>Data model (main.go, lines 18-32)\<close>

text \<open>
  The two structs of the program. A Go \<^verbatim>\<open>map[string]string\<close> that is only looked up is
  a HOL map; one that is ranged over is given as the sequence of its entries in the order
  of that iteration (Go leaves the order unspecified, so every theorem about a range
  loop quantifies over the sequence).
\<close>

record Task =
  Name :: string
  Cmds :: "string list"
  Silent :: bool
  Parallel :: bool
  Required :: "string list"

record Config =
  Vars :: "(string \<times> string) list"
  Usage :: string
  Tasks :: "Task list"

type_synonym vars = "string \<rightharpoonup> string"

text \<open>Capacity of the buffered channel \<^verbatim>\<open>moduleSyncChan\<close> (line 32).\<close>

definition moduleSyncChanCap :: nat where
  "moduleSyncChanCap = 1"

text \<open>
  What the process writes and starts, in order. The messages of the program carry a
  timestamp and colours, which are left out; \<open>CmdStart\<close> and \<open>CmdExit\<close> are the start and
  the end of a child process \<^verbatim>\<open>sh -c\<close> (\<^verbatim>\<open>execCmd.Run\<close>, line 246), with the thread that
  runs it, the task's name, and for the start the task's \<open>silent\<close> flag and the command as
  written and as rendered. \<open>FlagError\<close> and \<open>FlagHelp\<close> are what the \<^verbatim>\<open>flag\<close> package writes
  when it ends the process: the error with the list of the flags, or that list alone.
\<close>

datatype tid = MainT | GoT nat

datatype event =
    FlagError
  | FlagHelp
  | Banner
  | UsageLine
  | UsageHeader
  | UsageText string
  | VarsHeader
  | VarLine string string
  | FatalRead
  | FatalYaml
  | Skipping string
  | Running string
  | Completed string
  | Errored string
  | ErrorsOccurred
  | AllCompleted
  | CmdStart tid string bool string string
  | CmdExit tid string bool

section \<open>Placeholder substitution (lines 253-259)\<close>

text \<open>
  \<^verbatim>\<open>strings.ReplaceAll(s, old, new)\<close>: the non-overlapping occurrences of \<open>old\<close> are
  replaced from left to right. For an empty \<open>old\<close> Go inserts \<open>new\<close> before every
  character and at the end (on bytes here; the program never calls it so, a placeholder
  has at least four characters).
\<close>

function ReplaceAll :: "string \<Rightarrow> string \<Rightarrow> string \<Rightarrow> string" where
  "ReplaceAll s old new =
     (if old = [] then concat (map (\<lambda>c. new @ [c]) s) @ new
      else if s = [] then []
      else if prefix old s then new @ ReplaceAll (drop (length old) s) old new
      else hd s # ReplaceAll (tl s) old new)"
  by pat_completeness auto
termination
  by (relation "measure (\<lambda>(s, old, new). length s)") (auto simp: neq_Nil_conv)

declare ReplaceAll.simps [simp del]

text \<open>\<^verbatim>\<open>fmt.Sprintf("{{%s}}", key)\<close>\<close>

definition placeholder :: "string \<Rightarrow> string" where
  "placeholder key = ''{{'' @ key @ ''}}''"

text \<open>
  \<^verbatim>\<open>replacePlaceholders(input, vars)\<close>: one \<open>ReplaceAll\<close> per entry of \<open>vars\<close>, each over
  the whole string the previous one produced. \<open>kvs\<close> is \<open>vars\<close> in the order of this
  range loop.
\<close>

definition replacePlaceholders :: "string \<Rightarrow> (string \<times> string) list \<Rightarrow> string" where
  "replacePlaceholders input kvs =
     fold (\<lambda>(key, val) inp. ReplaceAll inp (placeholder key) val) kvs input"

section \<open>Command-line variables (parseArgs, lines 102-144)\<close>

text \<open>
  \<^verbatim>\<open>strings.SplitN(arg, "=", 2)\<close> has two parts exactly when \<open>arg\<close> contains \<open>=\<close>: the
  text before the first \<open>=\<close> and the text after it.
\<close>

definition SplitN2 :: "string \<Rightarrow> (string \<times> string) option" where
  "SplitN2 arg =
     (if CHR ''='' \<in> set arg
      then Some (takeWhile (\<lambda>c. c \<noteq> CHR ''='') arg, tl (dropWhile (\<lambda>c. c \<noteq> CHR ''='') arg))
      else None)"

text \<open>
  The first loop (lines 106-119): it stops at the first argument \<open>usage\<close> or \<open>USAGE\<close>;
  a later assignment to the same variable overwrites an earlier one.
\<close>

fun parseLoop :: "string list \<Rightarrow> vars \<Rightarrow> bool \<times> vars" where
  "parseLoop [] variables = (False, variables)"
| "parseLoop (arg # args) variables =
     (if arg = ''usage'' \<or> arg = ''USAGE'' then (True, variables)
      else (case SplitN2 arg of
              Some (k, v) \<Rightarrow> parseLoop args (variables(k \<mapsto> v))
            | None \<Rightarrow> parseLoop args variables))"

text \<open>The last loop (lines 137-141), over the entries of \<open>defaultVars\<close>.\<close>

fun applyDefaults :: "(string \<times> string) list \<Rightarrow> vars \<Rightarrow> vars" where
  "applyDefaults [] variables = variables"
| "applyDefaults ((key, defaultValue) # rest) variables =
     applyDefaults rest
       (if variables key = None then variables(key \<mapsto> defaultValue) else variables)"

text \<open>A lookup in a Go map of strings gives the empty string for a missing key.\<close>

definition lookupStr :: "(string \<times> string) list \<Rightarrow> string \<Rightarrow> string" where
  "lookupStr m k = (case map_of m k of Some v \<Rightarrow> v | None \<Rightarrow> [])"

text \<open>
  \<open>parseArgs\<close> either leaves the process with status 0 after the usage text
  (\<open>Inl\<close>, with what it wrote), or returns the merged variables.
\<close>

definition parseArgs :: "(string \<times> string) list \<Rightarrow> string list \<Rightarrow> event list + vars" where
  "parseArgs defaultVars args =
     (case parseLoop args Map.empty of
        (usageRequested, variables) \<Rightarrow>
          if usageRequested
          then Inl ([UsageHeader, UsageText (lookupStr defaultVars ''USAGE''), VarsHeader] @
                    map (\<lambda>(key, val). VarLine key val)
                      (filter (\<lambda>(key, val). key \<noteq> ''USAGE'') defaultVars))
          else Inr (applyDefaults defaultVars variables))"

section \<open>The command line (flag.Parse, line 43)\<close>

text \<open>
  \<open>main\<close> defines two flags on \<^verbatim>\<open>flag.CommandLine\<close>, the string \<^verbatim>\<open>-w\<close> and the boolean \<^verbatim>\<open>-q\<close>,
  and calls \<^verbatim>\<open>flag.Parse()\<close> on the arguments of the process. The parser belongs to Go's
  standard library; what follows is its \<^verbatim>\<open>parseOne\<close> loop for these two flags.

  \<^verbatim>\<open>strconv.ParseBool\<close> accepts twelve spellings.
\<close>

definition ParseBool :: "string \<Rightarrow> bool option" where
  "ParseBool str =
     (if str \<in> set [''1'', ''t'', ''T'', ''TRUE'', ''true'', ''True''] then Some True
      else if str \<in> set [''0'', ''f'', ''F'', ''FALSE'', ''false'', ''False''] then Some False
      else None)"

text \<open>
  An argument \<open>s\<close> that is a flag has one or two leading minus signs; \<open>flagBody\<close> is the
  rest, a name with an optional \<^verbatim>\<open>=value\<close>.
\<close>

definition flagBody :: "string \<Rightarrow> string" where
  "flagBody s = (if s ! 1 = CHR ''-'' then drop 2 s else drop 1 s)"

definition flagName :: "string \<Rightarrow> string" where
  "flagName s = takeWhile (\<lambda>c. c \<noteq> CHR ''='') (flagBody s)"

definition flagHasValue :: "string \<Rightarrow> bool" where
  "flagHasValue s = (CHR ''='' \<in> set (flagBody s))"

definition flagValue :: "string \<Rightarrow> string" where
  "flagValue s = tl (dropWhile (\<lambda>c. c \<noteq> CHR ''='') (flagBody s))"

text \<open>
  The result of \<^verbatim>\<open>flag.Parse()\<close>: the values of the two flags with the arguments left over
  (\<^verbatim>\<open>flag.Args()\<close>), or one of the two ways in which the parser ends the process itself
  (\<^verbatim>\<open>flag.ExitOnError\<close>): an error, or the request \<^verbatim>\<open>-h\<close>, \<^verbatim>\<open>-help\<close> for the list of flags.
\<close>

datatype parsed = Parsed string bool "string list" | FlagFailed | HelpRequested

text \<open>
  Parsing stops at the first argument that is not a flag (shorter than two characters,
  or not starting with a minus sign) and after \<^verbatim>\<open>--\<close>. A flag whose body is empty or
  starts with \<^verbatim>\<open>-\<close> or \<^verbatim>\<open>=\<close> is a syntax error. \<^verbatim>\<open>-w\<close> takes its value from \<^verbatim>\<open>=value\<close> or from
  the next argument and fails when there is none; \<^verbatim>\<open>-q\<close> alone is true and \<^verbatim>\<open>-q=value\<close> must
  be a boolean; any other name is an error, except \<^verbatim>\<open>h\<close> and \<^verbatim>\<open>help\<close>. A flag given again
  overwrites the earlier value.
\<close>

fun flagParse :: "string list \<Rightarrow> string \<Rightarrow> bool \<Rightarrow> parsed" where
  "flagParse [] taskFile quietMode = Parsed taskFile quietMode []"
| "flagParse (s # rest) taskFile quietMode =
     (if length s < 2 \<or> hd s \<noteq> CHR ''-'' then Parsed taskFile quietMode (s # rest)
      else if s = ''--'' then Parsed taskFile quietMode rest
      else if flagBody s = [] \<or> hd (flagBody s) = CHR ''-'' \<or> hd (flagBody s) = CHR ''=''
        then FlagFailed
      else if flagName s = ''w'' then
        (if flagHasValue s then flagParse rest (flagValue s) quietMode
         else (case rest of
                 [] \<Rightarrow> FlagFailed
               | val # rest' \<Rightarrow> flagParse rest' val quietMode))
      else if flagName s = ''q'' then
        (if flagHasValue s
         then (case ParseBool (flagValue s) of
                 None \<Rightarrow> FlagFailed
               | Some b \<Rightarrow> flagParse rest taskFile b)
         else flagParse rest taskFile True)
      else if flagName s = ''help'' \<or> flagName s = ''h'' then HelpRequested
      else FlagFailed)"

section \<open>The entry point up to the call of runAllTasks (main, lines 34-100)\<close>

text \<open>
  \<open>argv\<close> is the command line after the program's name. The file system and the YAML
  decoder are parameters: \<open>files path\<close> is the content of the file or \<open>None\<close> when it
  cannot be read, \<open>unmarshal\<close> gives \<open>None\<close> on a decoding error. No file has the empty
  path.
\<close>

definition ReadFile :: "(string \<Rightarrow> string option) \<Rightarrow> string \<Rightarrow> string option" where
  "ReadFile files path = (if path = [] then None else files path)"

text \<open>
  \<open>main\<close> ends the process with a status and what it wrote (\<open>Exit\<close>), or reaches the call
  of \<open>runAllTasks\<close> (line 99). The parser ends the process with status 2 on an error and
  with status 0 after \<^verbatim>\<open>-h\<close> or \<^verbatim>\<open>-help\<close>; \<^verbatim>\<open>log.Fatalf\<close> ends it with status 1.
\<close>

datatype outcome =
    Exit nat "event list"
  | RunAllTasks Config vars "event list"

definition main :: "(string \<Rightarrow> string option) \<Rightarrow> (string \<Rightarrow> Config option) \<Rightarrow>
    string list \<Rightarrow> outcome" where
  "main files unmarshal argv =
     (case flagParse argv [] False of
        FlagFailed \<Rightarrow> Exit 2 [FlagError]
      | HelpRequested \<Rightarrow> Exit 0 [FlagHelp]
      | Parsed taskFile quietMode args \<Rightarrow>
          (let banner = (if \<not> quietMode then [Banner] else []);
               defaultVars =
                 (case ReadFile files taskFile of
                    None \<Rightarrow> []
                  | Some yamlFileContent \<Rightarrow>
                      (case unmarshal yamlFileContent of
                         None \<Rightarrow> []
                       | Some config \<Rightarrow> Vars config))
           in case parseArgs defaultVars args of
                Inl usage \<Rightarrow> Exit 0 (banner @ usage)
              | Inr variables \<Rightarrow>
                  if taskFile = [] then Exit 0 (banner @ [UsageLine])
                  else (case ReadFile files taskFile of
                          None \<Rightarrow> Exit 1 (banner @ [FatalRead])
                        | Some taskFileContent \<Rightarrow>
                            (case unmarshal taskFileContent of
                               None \<Rightarrow> Exit 1 (banner @ [FatalYaml])
                             | Some config \<Rightarrow> RunAllTasks config variables banner))))"

section \<open>Running one task (runTask and executeCommand, lines 213-251)\<close>

text \<open>
  What the program does not decide is a parameter: the order in which a range loop
  visits \<open>vars\<close>, and the child processes. \<open>procStart\<close> starts \<^verbatim>\<open>sh -c\<close> on the rendered
  command (with the task's \<open>silent\<close> flag), \<open>procWait\<close> waits for the child of a thread and
  gives \<^verbatim>\<open>err != nil\<close> of \<^verbatim>\<open>execCmd.Run\<close>: \<open>True\<close> when the exit status is not zero (or
  the child could not be started). Both act on a state \<open>'w\<close> of the outside world, which
  the theorems leave arbitrary; every command is taken to end.
\<close>

record 'w shell =
  rangeOrder :: "vars \<Rightarrow> 'w \<Rightarrow> (string \<times> string) list"
  procStart :: "tid \<Rightarrow> string \<Rightarrow> bool \<Rightarrow> 'w \<Rightarrow> 'w"
  procWait :: "tid \<Rightarrow> 'w \<Rightarrow> bool \<times> 'w"

text \<open>
  \<open>executeCommand\<close> as one thread runs it alone. The thread and the task's name are
  only recorded in the events.
\<close>

definition executeCommand ::
  "'w shell \<Rightarrow> tid \<Rightarrow> string \<Rightarrow> string \<Rightarrow> bool \<Rightarrow> vars \<Rightarrow> 'w \<Rightarrow> bool \<times> event list \<times> 'w" where
  "executeCommand sh t taskName cmdStr silent vars w =
     (let rendered = replacePlaceholders cmdStr (rangeOrder sh vars w);
          w1 = procStart sh t rendered silent w
      in case procWait sh t w1 of
           (err, w2) \<Rightarrow> (err, [CmdStart t taskName silent cmdStr rendered, CmdExit t taskName err], w2))"

text \<open>The loop of \<open>runTask\<close> (lines 218-224): it leaves at the first error.\<close>

fun runCmds ::
  "'w shell \<Rightarrow> tid \<Rightarrow> string \<Rightarrow> bool \<Rightarrow> vars \<Rightarrow> string list \<Rightarrow> 'w \<Rightarrow> bool \<times> event list \<times> 'w" where
  "runCmds sh t taskName silent vars [] w = (False, [], w)"
| "runCmds sh t taskName silent vars (cmd # cmds) w =
     (case executeCommand sh t taskName cmd silent vars w of
        (err, evs, w') \<Rightarrow>
          if err then (True, evs, w')
          else (case runCmds sh t taskName silent vars cmds w' of
                  (hasError, evs', w'') \<Rightarrow> (hasError, evs @ evs', w'')))"

text \<open>\<open>runTask\<close>: the result is \<^verbatim>\<open>err != nil\<close>, with the events and the new world.\<close>

definition runTask ::
  "'w shell \<Rightarrow> tid \<Rightarrow> string \<Rightarrow> string list \<Rightarrow> bool \<Rightarrow> vars \<Rightarrow> 'w \<Rightarrow> bool \<times> event list \<times> 'w" where
  "runTask sh t taskName cmds silent vars w =
     (case runCmds sh t taskName silent vars cmds w of
        (hasError, evs, w') \<Rightarrow>
          if hasError then (True, Running taskName # evs, w')
          else (False, Running taskName # evs @ [Completed taskName], w'))"

text \<open>
  The same function in steps, for the runs in which a parallel task and the main
  thread interleave: \<open>Enter\<close> is the call, \<open>Iter cmds\<close> the head of the loop with the
  commands still to run, \<open>Wait cmds\<close> a started child that has not ended yet, and
  \<open>Ret err\<close> the return. Lemma \<open>rt_run_runTask\<close> below shows that the steps of
  one thread, taken without interruption, compute \<open>runTask\<close>.
\<close>

datatype rtpc = Enter "string list" | Iter "string list" | Wait "string list" | Ret bool

fun rt_step ::
  "'w shell \<Rightarrow> tid \<Rightarrow> string \<Rightarrow> bool \<Rightarrow> vars \<Rightarrow> rtpc \<Rightarrow> 'w \<Rightarrow> rtpc \<times> event list \<times> 'w" where
  "rt_step sh t taskName silent vars (Enter cmds) w = (Iter cmds, [Running taskName], w)"
| "rt_step sh t taskName silent vars (Iter []) w = (Ret False, [Completed taskName], w)"
| "rt_step sh t taskName silent vars (Iter (cmd # cmds)) w =
     (let rendered = replacePlaceholders cmd (rangeOrder sh vars w)
      in (Wait cmds, [CmdStart t taskName silent cmd rendered], procStart sh t rendered silent w))"
| "rt_step sh t taskName silent vars (Wait cmds) w =
     (case procWait sh t w of
        (err, w') \<Rightarrow> (if err then Ret True else Iter cmds, [CmdExit t taskName err], w'))"
| "rt_step sh t taskName silent vars (Ret err) w = (Ret err, [], w)"

fun rtw :: "rtpc \<Rightarrow> nat" where
  "rtw (Enter cmds) = 2 * length cmds + 2"
| "rtw (Iter cmds) = 2 * length cmds + 1"
| "rtw (Wait cmds) = 2 * length cmds + 2"
| "rtw (Ret err) = 0"

lemma rt_step_decreases:
  "(pc', evs, w') = rt_step sh t n silent vars pc w \<Longrightarrow> rtw pc' < rtw pc \<or> (\<exists>e. pc = Ret e)"
  by (induction sh t n silent vars pc w rule: rt_step.induct) (auto simp: Let_def split: prod.splits if_splits)

function (sequential) rt_run ::
  "'w shell \<Rightarrow> tid \<Rightarrow> string \<Rightarrow> bool \<Rightarrow> vars \<Rightarrow> rtpc \<Rightarrow> 'w \<Rightarrow> bool \<times> event list \<times> 'w" where
  "rt_run sh t taskName silent vars (Ret err) w = (err, [], w)"
| "rt_run sh t taskName silent vars pc w =
     (case rt_step sh t taskName silent vars pc w of
        (pc', evs, w') \<Rightarrow>
          (case rt_run sh t taskName silent vars pc' w' of
             (err, evs', w'') \<Rightarrow> (err, evs @ evs', w'')))"
  by pat_completeness auto
termination
  by (relation "measure (\<lambda>(sh, t, n, silent, vars, pc, w). rtw pc)")
     (auto simp del: rt_step.simps dest: rt_step_decreases)

declare rt_run.simps [simp del]

text \<open>The commands an event sequence starts, and the results of the children that ended.\<close>

definition startedCmds :: "event list \<Rightarrow> string list" where
  "startedCmds evs = concat (map (\<lambda>e. case e of CmdStart t n sil c r \<Rightarrow> [c] | _ \<Rightarrow> []) evs)"

definition exitErrs :: "event list \<Rightarrow> bool list" where
  "exitErrs evs = concat (map (\<lambda>e. case e of CmdExit t n err \<Rightarrow> [err] | _ \<Rightarrow> []) evs)"

text \<open>
  A shell for the examples: the world is the last command started, \<^verbatim>\<open>false\<close> is the only
  command that fails, and the variables are visited in no order at all (there are none).
\<close>

definition demoShell :: "string shell" where
  "demoShell = \<lparr>rangeOrder = (\<lambda>vars w. []), procStart = (\<lambda>t rendered silent w. rendered),
                 procWait = (\<lambda>t w. (w = ''false'', w))\<rparr>"

text \<open>
  For the statements about \<open>runTask\<close>: what the child process of one command does when
  it is started in the world \<open>w\<close> and waited for, and the world after a sequence of
  commands each of which exits with status zero (\<open>None\<close> when one of them does not).
\<close>

definition childRun :: "'w shell \<Rightarrow> tid \<Rightarrow> bool \<Rightarrow> vars \<Rightarrow> string \<Rightarrow> 'w \<Rightarrow> bool \<times> 'w" where
  "childRun sh t silent vars cmd w =
     procWait sh t (procStart sh t (replacePlaceholders cmd (rangeOrder sh vars w)) silent w)"

fun allExitZero :: "'w shell \<Rightarrow> tid \<Rightarrow> bool \<Rightarrow> vars \<Rightarrow> string list \<Rightarrow> 'w \<Rightarrow> 'w option" where
  "allExitZero sh t silent vars [] w = Some w"
| "allExitZero sh t silent vars (cmd # cmds) w =
     (case childRun sh t silent vars cmd w of
        (err, w') \<Rightarrow> if err then None else allExitZero sh t silent vars cmds w')"

section \<open>The pass over the tasks (runAllTasks, lines 146-210)\<close>

text \<open>
  \<^verbatim>\<open>taskCompleted\<close> is a Go \<^verbatim>\<open>map[string]bool\<close>: reading a name that was never written
  gives \<^verbatim>\<open>false\<close>.
\<close>

definition completed :: "(string \<rightharpoonup> bool) \<Rightarrow> string \<Rightarrow> bool" where
  "completed tc name = (case tc name of Some b \<Rightarrow> b | None \<Rightarrow> False)"

text \<open>The inner loop of lines 157-163: it leaves at the first requirement not completed.\<close>

fun allRequiredCompleted :: "(string \<rightharpoonup> bool) \<Rightarrow> string list \<Rightarrow> bool" where
  "allRequiredCompleted tc [] = True"
| "allRequiredCompleted tc (req # reqs) =
     (if \<not> completed tc req then False else allRequiredCompleted tc reqs)"

text \<open>Lines 155-170: whether the task goes on to be dispatched (\<open>False\<close>: it is skipped).\<close>

definition runnable :: "(string \<rightharpoonup> bool) \<Rightarrow> Task \<Rightarrow> bool" where
  "runnable tc task =
     (if length (Required task) > 0 then allRequiredCompleted tc (Required task) else True)"

text \<open>
  A parallel task runs in a goroutine while the main thread goes on with the loop, so
  \<open>runAllTasks\<close> is a transition system: a state holds where each thread stands and the
  variables the threads share, and a step is one action of one thread. Steps are atomic
  and interleave (map accesses are taken as atomic; the Go runtime's detection of
  unsynchronised map access is outside the model).

  The main thread stands at the head of the loop with the tasks still to visit
  (\<open>M_loop\<close>, line 154), before the send on \<^verbatim>\<open>moduleSyncChan\<close> for a parallel task that
  passed the check (\<open>M_send\<close>, line 174), inside \<open>runTask\<close> for a sequential task
  (\<open>M_run\<close>, line 192), at \<^verbatim>\<open>wg.Wait()\<close> (\<open>M_wait\<close>, line 202), or the process has ended
  with a status (\<open>M_exit\<close>).
\<close>

datatype mainpc =
    M_loop "Task list"
  | M_send Task "Task list"
  | M_run Task rtpc "Task list"
  | M_wait
  | M_exit nat

text \<open>
  A goroutine (lines 176-190) is inside \<open>runTask\<close> or at the report of its error
  (\<open>G_task\<close>, lines 181-187), before the write to \<^verbatim>\<open>taskCompleted\<close> (\<open>G_mark\<close>, line 189),
  before the receive from \<^verbatim>\<open>moduleSyncChan\<close> (\<open>G_release\<close>, line 178), before
  \<^verbatim>\<open>wg.Done()\<close> (\<open>G_wgdone\<close>, line 179), or it has ended.
\<close>

datatype gopc = G_task rtpc | G_mark | G_release | G_wgdone | G_exit

record gor =
  gname :: string
  gsilent :: bool
  gpc :: gopc

record 'w state =
  mpc :: mainpc
  gors :: "gor list"
  chan :: nat
  wg :: nat
  taskCompleted :: "string \<rightharpoonup> bool"
  errorOccurred :: bool
  trace :: "event list"
  world :: 'w

definition init :: "Config \<Rightarrow> 'w \<Rightarrow> 'w state" where
  "init config w =
     \<lparr>mpc = M_loop (Tasks config), gors = [], chan = 0, wg = 0, taskCompleted = Map.empty,
      errorOccurred = False, trace = [], world = w\<rparr>"

text \<open>
  One step of the main thread; \<open>None\<close> when it is blocked (a send on the full channel,
  \<^verbatim>\<open>wg.Wait()\<close> with a counter above zero) or the process has ended. The send, \<^verbatim>\<open>wg.Add(1)\<close>
  and the \<^verbatim>\<open>go\<close> statement are one step, and so are lines 193-198 after a sequential
  \<open>runTask\<close>: no other thread can tell them apart.
\<close>

fun main_pc_step :: "'w shell \<Rightarrow> vars \<Rightarrow> mainpc \<Rightarrow> 'w state \<Rightarrow> 'w state option" where
  "main_pc_step sh vars (M_loop []) s = Some (s\<lparr>mpc := M_wait\<rparr>)"
| "main_pc_step sh vars (M_loop (task # rest)) s =
     (if runnable (taskCompleted s) task
      then (if Parallel task then Some (s\<lparr>mpc := M_send task rest\<rparr>)
            else Some (s\<lparr>mpc := M_run task (Enter (Cmds task)) rest\<rparr>))
      else Some (s\<lparr>mpc := M_loop rest, trace := trace s @ [Skipping (Name task)]\<rparr>))"
| "main_pc_step sh vars (M_send task rest) s =
     (if chan s < moduleSyncChanCap
      then Some (s\<lparr>mpc := M_loop rest, chan := chan s + 1, wg := wg s + 1,
                   gors := gors s @ [\<lparr>gname = Name task, gsilent = Silent task,
                                      gpc = G_task (Enter (Cmds task))\<rparr>]\<rparr>)
      else None)"
| "main_pc_step sh vars (M_run task (Ret err) rest) s =
     Some (s\<lparr>mpc := M_loop rest,
              errorOccurred := (errorOccurred s \<or> err),
              trace := trace s @ (if err then [Errored (Name task)] else []),
              taskCompleted := (taskCompleted s)(Name task \<mapsto> True)\<rparr>)"
| "main_pc_step sh vars (M_run task pc rest) s =
     (case rt_step sh MainT (Name task) (Silent task) vars pc (world s) of
        (pc', evs, w') \<Rightarrow>
          Some (s\<lparr>mpc := M_run task pc' rest, trace := trace s @ evs, world := w'\<rparr>))"
| "main_pc_step sh vars M_wait s =
     (if wg s = 0
      then (if errorOccurred s
            then Some (s\<lparr>mpc := M_exit 1, trace := trace s @ [ErrorsOccurred]\<rparr>)
            else Some (s\<lparr>mpc := M_exit 0, trace := trace s @ [AllCompleted]\<rparr>))
      else None)"
| "main_pc_step sh vars (M_exit code) s = None"

definition main_step :: "'w shell \<Rightarrow> vars \<Rightarrow> 'w state \<Rightarrow> 'w state option" where
  "main_step sh vars s = main_pc_step sh vars (mpc s) s"

text \<open>
  One step of goroutine \<open>i\<close>, which is \<open>g\<close> in the state. The receive blocks on an
  empty channel; \<^verbatim>\<open>wg.Done()\<close> on a counter that is zero panics, which ends the process
  with status 2.
\<close>

fun go_pc_step ::
  "'w shell \<Rightarrow> vars \<Rightarrow> nat \<Rightarrow> gor \<Rightarrow> gopc \<Rightarrow> 'w state \<Rightarrow> 'w state option" where
  "go_pc_step sh vars i g (G_task (Ret err)) s =
     Some (s\<lparr>errorOccurred := (errorOccurred s \<or> err),
              trace := trace s @ (if err then [Errored (gname g)] else []),
              gors := (gors s)[i := g\<lparr>gpc := G_mark\<rparr>]\<rparr>)"
| "go_pc_step sh vars i g (G_task pc) s =
     (case rt_step sh (GoT i) (gname g) (gsilent g) vars pc (world s) of
        (pc', evs, w') \<Rightarrow>
          Some (s\<lparr>gors := (gors s)[i := g\<lparr>gpc := G_task pc'\<rparr>],
                   trace := trace s @ evs, world := w'\<rparr>))"
| "go_pc_step sh vars i g G_mark s =
     Some (s\<lparr>taskCompleted := (taskCompleted s)(gname g \<mapsto> True),
              gors := (gors s)[i := g\<lparr>gpc := G_release\<rparr>]\<rparr>)"
| "go_pc_step sh vars i g G_release s =
     (if chan s > 0
      then Some (s\<lparr>chan := chan s - 1, gors := (gors s)[i := g\<lparr>gpc := G_wgdone\<rparr>]\<rparr>)
      else None)"
| "go_pc_step sh vars i g G_wgdone s =
     (if wg s > 0
      then Some (s\<lparr>wg := wg s - 1, gors := (gors s)[i := g\<lparr>gpc := G_exit\<rparr>]\<rparr>)
      else Some (s\<lparr>mpc := M_exit 2\<rparr>))"
| "go_pc_step sh vars i g G_exit s = None"

fun exited :: "mainpc \<Rightarrow> bool" where
  "exited (M_exit code) = True"
| "exited pc = False"

definition go_step :: "'w shell \<Rightarrow> vars \<Rightarrow> nat \<Rightarrow> 'w state \<Rightarrow> 'w state option" where
  "go_step sh vars i s =
     (if i < length (gors s) \<and> \<not> exited (mpc s)
      then go_pc_step sh vars i (gors s ! i) (gpc (gors s ! i)) s
      else None)"

fun step :: "'w shell \<Rightarrow> vars \<Rightarrow> tid \<Rightarrow> 'w state \<Rightarrow> 'w state option" where
  "step sh vars MainT s = main_step sh vars s"
| "step sh vars (GoT i) s = go_step sh vars i s"

text \<open>
  A run follows a schedule, the sequence of the threads that take the steps; it is
  \<open>None\<close> when the schedule names a thread that cannot step.
\<close>

fun run :: "'w shell \<Rightarrow> vars \<Rightarrow> tid list \<Rightarrow> 'w state \<Rightarrow> 'w state option" where
  "run sh vars [] s = Some s"
| "run sh vars (t # sched) s =
     (case step sh vars t s of None \<Rightarrow> None | Some s' \<Rightarrow> run sh vars sched s')"

definition runAllTasks ::
  "'w shell \<Rightarrow> Config \<Rightarrow> vars \<Rightarrow> tid list \<Rightarrow> 'w \<Rightarrow> 'w state option" where
  "runAllTasks sh config variables sched w = run sh variables sched (init config w)"

section \<open>The trace and the outside world\<close>

text \<open>
  The events \<open>CmdStart\<close> and \<open>CmdExit\<close> of a trace against the outside world: \<open>replay\<close>
  makes the calls they stand for again, in their order, from the world \<open>w\<close>. It gives
  the world after the last of them when every \<open>CmdStart\<close> carries the command as it is
  rendered in the world of that moment and every \<open>CmdExit\<close> carries the result that
  \<open>procWait\<close> gives there, and \<open>None\<close> otherwise.
\<close>

fun replay :: "'w shell \<Rightarrow> vars \<Rightarrow> event list \<Rightarrow> 'w \<Rightarrow> 'w option" where
  "replay sh vars [] w = Some w"
| "replay sh vars (CmdStart t n silent c r # evs) w =
     (if r = replacePlaceholders c (rangeOrder sh vars w)
      then replay sh vars evs (procStart sh t r silent w) else None)"
| "replay sh vars (CmdExit t n err # evs) w =
     (case procWait sh t w of
        (err', w') \<Rightarrow> if err = err' then replay sh vars evs w' else None)"
| "replay sh vars (e # evs) w = replay sh vars evs w"

text \<open>
  The goroutine and the task of an event that is the start or the end of a goroutine's
  child. In every state such an event belongs to a goroutine that exists, and carries
  the name of the task the goroutine was started for.
\<close>

fun goEvent :: "event \<Rightarrow> (nat \<times> string) option" where
  "goEvent (CmdStart (GoT i) n silent c r) = Some (i, n)"
| "goEvent (CmdExit (GoT i) n err) = Some (i, n)"
| "goEvent e = None"

definition inv_names :: "'w state \<Rightarrow> bool" where
  "inv_names s =
     (\<forall>e \<in> set (trace s). \<forall>i n. goEvent e = Some (i, n) \<longrightarrow>
        i < length (gors s) \<and> gname (gors s ! i) = n)"

section \<open>Placeholders replaced in one pass\<close>

text \<open>
  A token is \<^verbatim>\<open>{{name}}\<close> with a name that contains no brace. \<open>tokenAt s\<close> is the token at
  the start of \<open>s\<close>, with the text after it.
\<close>

definition isBrace :: "char \<Rightarrow> bool" where
  "isBrace c = (c = CHR ''{'' \<or> c = CHR ''}'')"

definition braceFree :: "string \<Rightarrow> bool" where
  "braceFree s = (\<forall>c \<in> set s. \<not> isBrace c)"

definition tokenAt :: "string \<Rightarrow> (string \<times> string) option" where
  "tokenAt s =
     (if prefix ''{{'' s
      then (let body = takeWhile (\<lambda>c. \<not> isBrace c) (drop 2 s);
                rest = dropWhile (\<lambda>c. \<not> isBrace c) (drop 2 s)
            in if prefix ''}}'' rest then Some (body, drop 2 rest) else None)
      else None)"

lemma tokenAt_Some:
  "tokenAt s = Some (k, rest) \<longleftrightarrow> braceFree k \<and> s = ''{{'' @ k @ ''}}'' @ rest"
proof
  assume a: "tokenAt s = Some (k, rest)"
  define t where "t = drop 2 s"
  from a have p: "prefix ''{{'' s" and q: "prefix ''}}'' (dropWhile (\<lambda>c. \<not> isBrace c) t)"
    and k: "k = takeWhile (\<lambda>c. \<not> isBrace c) t"
    and r: "rest = drop 2 (dropWhile (\<lambda>c. \<not> isBrace c) t)"
    by (auto simp: tokenAt_def Let_def t_def split: if_splits)
  from p have s: "s = ''{{'' @ t" by (auto simp: prefix_def t_def)
  from q r have d: "dropWhile (\<lambda>c. \<not> isBrace c) t = ''}}'' @ rest" by (auto simp: prefix_def)
  have "t = k @ ''}}'' @ rest"
    using takeWhile_dropWhile_id [of "\<lambda>c. \<not> isBrace c" t] k d by simp
  moreover have "braceFree k"
    unfolding k braceFree_def by (auto dest: set_takeWhileD)
  ultimately show "braceFree k \<and> s = ''{{'' @ k @ ''}}'' @ rest" using s by simp
next
  assume a: "braceFree k \<and> s = ''{{'' @ k @ ''}}'' @ rest"
  then have t: "takeWhile (\<lambda>c. \<not> isBrace c) (k @ ''}}'' @ rest) = k"
    and d: "dropWhile (\<lambda>c. \<not> isBrace c) (k @ ''}}'' @ rest) = ''}}'' @ rest"
    by (auto simp: braceFree_def isBrace_def takeWhile_append dropWhile_append
        intro!: takeWhile_eq_all_conv [THEN iffD2] dropWhile_eq_Nil_conv [THEN iffD2])
  from a t d show "tokenAt s = Some (k, rest)"
    by (simp add: tokenAt_def Let_def)
qed

lemma tokenAt_shorter: "tokenAt s = Some (k, rest) \<Longrightarrow> length rest < length s"
  by (simp add: tokenAt_Some)

text \<open>
  The rendering in the words of the specification (sections 4.3 and 8.5), to be compared
  with \<open>replacePlaceholders\<close>: one pass over the command in which every token whose
  name is a variable is replaced by the value of the variable, and everything else,
  also a token whose name is no variable, is copied.
\<close>

function render_spec :: "vars \<Rightarrow> string \<Rightarrow> string" where
  "render_spec env [] = []"
| "render_spec env (c # t) =
     (case tokenAt (c # t) of
        None \<Rightarrow> c # render_spec env t
      | Some (k, rest) \<Rightarrow>
          (case env k of
             None \<Rightarrow> c # render_spec env t
           | Some v \<Rightarrow> v @ render_spec env rest))"
  by pat_completeness auto
termination
  by (relation "measure (\<lambda>(env, s). length s)") (auto dest: tokenAt_shorter)

text \<open>
  Variables for which the order of the replacements does not matter: distinct names,
  no brace in a name or a value, and no value that occurs inside the name of another
  variable (an empty value occurs inside every name).
\<close>

definition separable :: "(string \<times> string) list \<Rightarrow> bool" where
  "separable kvs =
     (distinct (map fst kvs) \<and>
      (\<forall>(k, v) \<in> set kvs. braceFree k \<and> braceFree v) \<and>
      (\<forall>(k, v) \<in> set kvs. \<forall>(k', v') \<in> set kvs. k' \<noteq> k \<longrightarrow> \<not> sublist v k'))"

text \<open>
  The precondition in the words of the specification: no value contains a token
  \<^verbatim>\<open>{{name}}\<close> for the name of a variable.
\<close>

definition noBoundToken :: "(string \<times> string) list \<Rightarrow> bool" where
  "noBoundToken kvs =
     (\<forall>(k, v) \<in> set kvs. \<forall>(k', v') \<in> set kvs. \<not> sublist (placeholder k') v)"

section \<open>Invariants of the runs\<close>

text \<open>
  A goroutine holds the element it found sent on \<^verbatim>\<open>moduleSyncChan\<close> from its start until its
  receive (line 178).
\<close>

fun holdsSlot :: "gopc \<Rightarrow> bool" where
  "holdsSlot (G_task pc) = True"
| "holdsSlot G_mark = True"
| "holdsSlot G_release = True"
| "holdsSlot G_wgdone = False"
| "holdsSlot G_exit = False"

text \<open>
  The channel holds one element for every goroutine that has not received yet, the
  counter of the \<^verbatim>\<open>WaitGroup\<close> is the number of goroutines that have not called
  \<^verbatim>\<open>wg.Done()\<close>, and the channel is never above its capacity.
\<close>

definition inv_counts :: "'w state \<Rightarrow> bool" where
  "inv_counts s =
     (chan s = length (filter (\<lambda>g. holdsSlot (gpc g)) (gors s)) \<and>
      wg s = length (filter (\<lambda>g. gpc g \<noteq> G_exit) (gors s)) \<and>
      chan s \<le> moduleSyncChanCap)"

text \<open>
  When \<open>runAllTasks\<close> has ended the process, the status is 0 or 1 and every goroutine has
  ended.
\<close>

definition inv_exit :: "'w state \<Rightarrow> bool" where
  "inv_exit s = (\<forall>c. mpc s = M_exit c \<longrightarrow> c \<le> 1 \<and> (\<forall>g \<in> set (gors s). gpc g = G_exit))"

text \<open>
A sum over the goroutines of a state.
\<close>

definition gsum :: "(gor \<Rightarrow> 'a::comm_monoid_add) \<Rightarrow> gor list \<Rightarrow> 'a" where
  "gsum f gs = sum_list (map f gs)"

text \<open>
  The names, with their multiplicity, of the tasks one of whose children ended with an
  error (\<open>failNames\<close>), and of the tasks reported as errored (\<open>errNames\<close>, lines 186
  and 195).
\<close>

fun failName :: "event \<Rightarrow> string multiset" where
  "failName (CmdExit t n True) = {#n#}"
| "failName e = {#}"

fun errName :: "event \<Rightarrow> string multiset" where
  "errName (Errored n) = {#n#}"
| "errName e = {#}"

definition failNames :: "event list \<Rightarrow> string multiset" where
  "failNames tr = sum_list (map failName tr)"

definition errNames :: "event list \<Rightarrow> string multiset" where
  "errNames tr = sum_list (map errName tr)"

text \<open>
  Between the return of \<open>runTask\<close> with an error and the report, the error is pending.
  Every task with a failed command is reported or pending, and \<^verbatim>\<open>errorOccurred\<close> is set
  exactly when a report was written.
\<close>

fun mainPend :: "mainpc \<Rightarrow> string multiset" where
  "mainPend (M_run task (Ret True) rest) = {#Name task#}"
| "mainPend pc = {#}"

definition goPend :: "gor \<Rightarrow> string multiset" where
  "goPend g = (if gpc g = G_task (Ret True) then {#gname g#} else {#})"

definition inv_fail :: "'w state \<Rightarrow> bool" where
  "inv_fail s =
     (failNames (trace s) = errNames (trace s) + mainPend (mpc s) + gsum goPend (gors s) \<and>
      (errorOccurred s \<longleftrightarrow> errNames (trace s) \<noteq> {#}))"

text \<open>
  The names of the tasks that were skipped (line 167) and of the tasks that entered
  \<open>runTask\<close> (line 215).
\<close>

fun skipName :: "event \<Rightarrow> string multiset" where
  "skipName (Skipping n) = {#n#}"
| "skipName e = {#}"

fun runName :: "event \<Rightarrow> string multiset" where
  "runName (Running n) = {#n#}"
| "runName e = {#}"

definition skipNames :: "event list \<Rightarrow> string multiset" where
  "skipNames tr = sum_list (map skipName tr)"

definition runNames :: "event list \<Rightarrow> string multiset" where
  "runNames tr = sum_list (map runName tr)"

text \<open>
  Every declared task is accounted for: it was skipped, it entered \<open>runTask\<close>, it passed
  the check and is about to enter, or the loop has not reached it yet.
\<close>

fun mainEnter :: "mainpc \<Rightarrow> string multiset" where
  "mainEnter (M_send task rest) = {#Name task#}"
| "mainEnter (M_run task (Enter cmds) rest) = {#Name task#}"
| "mainEnter pc = {#}"

fun goEnter :: "gor \<Rightarrow> string multiset" where
  "goEnter g = (case gpc g of G_task (Enter cmds) \<Rightarrow> {#gname g#} | _ \<Rightarrow> {#})"

fun remaining :: "mainpc \<Rightarrow> Task list" where
  "remaining (M_loop tasks) = tasks"
| "remaining (M_send task rest) = rest"
| "remaining (M_run task pc rest) = rest"
| "remaining M_wait = []"
| "remaining (M_exit code) = []"

definition inv_disp :: "Config \<Rightarrow> 'w state \<Rightarrow> bool" where
  "inv_disp config s =
     (mset (map Name (Tasks config)) =
        skipNames (trace s) + runNames (trace s) + mainEnter (mpc s) + gsum goEnter (gors s) +
        mset (map Name (remaining (mpc s))))"

text \<open>
  Only a task that wrote its running message is marked in \<^verbatim>\<open>taskCompleted\<close>, and a thread
  that is past the entry of \<open>runTask\<close> has written it.
\<close>

fun isEnter :: "rtpc \<Rightarrow> bool" where
  "isEnter (Enter cmds) = True"
| "isEnter pc = False"

fun mainStarted :: "mainpc \<Rightarrow> string multiset \<Rightarrow> bool" where
  "mainStarted (M_run task pc rest) R = (isEnter pc \<or> Name task \<in># R)"
| "mainStarted pc R = True"

fun pcStarted :: "gopc \<Rightarrow> string \<Rightarrow> string multiset \<Rightarrow> bool" where
  "pcStarted (G_task pc) n R = (isEnter pc \<or> n \<in># R)"
| "pcStarted G_mark n R = (n \<in># R)"
| "pcStarted pc n R = True"

definition inv_started :: "'w state \<Rightarrow> bool" where
  "inv_started s =
     ((\<forall>n. taskCompleted s n \<noteq> None \<longrightarrow> n \<in># runNames (trace s)) \<and>
      mainStarted (mpc s) (runNames (trace s)) \<and>
      (\<forall>g \<in> set (gors s). pcStarted (gpc g) (gname g) (runNames (trace s))))"

text \<open>
  A task is active from its dispatch until the write to \<^verbatim>\<open>taskCompleted\<close>. Every task that
  entered \<open>runTask\<close> is marked completed or still active.
\<close>

fun mainActive :: "mainpc \<Rightarrow> string multiset" where
  "mainActive (M_run task pc rest) = {#Name task#}"
| "mainActive pc = {#}"

fun goActive :: "gor \<Rightarrow> string multiset" where
  "goActive g = (case gpc g of G_task pc \<Rightarrow> {#gname g#} | G_mark \<Rightarrow> {#gname g#} | _ \<Rightarrow> {#})"

definition activeNames :: "'w state \<Rightarrow> string multiset" where
  "activeNames s = mainActive (mpc s) + gsum goActive (gors s)"

definition inv_active :: "'w state \<Rightarrow> bool" where
  "inv_active s =
     (\<forall>n. n \<in># runNames (trace s) \<longrightarrow> completed (taskCompleted s) n \<or> n \<in># activeNames s)"

text \<open>
  The goroutines whose children start and end, in the order of the trace.
\<close>

fun goId :: "event \<Rightarrow> nat list" where
  "goId (CmdStart (GoT i) n sil c r) = [i]"
| "goId (CmdExit (GoT i) n e) = [i]"
| "goId e = []"

definition goIds :: "event list \<Rightarrow> nat list" where
  "goIds tr = concat (map goId tr)"

text \<open>
  Only the youngest goroutine can hold the slot; the children of the goroutines start
  and end in the order of the goroutines; and the goroutines are started in the order
  in which the tasks are declared.
\<close>

fun todo :: "mainpc \<Rightarrow> Task list" where
  "todo (M_loop tasks) = tasks"
| "todo (M_send task rest) = task # rest"
| "todo (M_run task pc rest) = rest"
| "todo M_wait = []"
| "todo (M_exit code) = []"

definition inv_order :: "Config \<Rightarrow> 'w state \<Rightarrow> bool" where
  "inv_order config s =
     ((\<forall>g \<in> set (butlast (gors s)). \<not> holdsSlot (gpc g)) \<and>
      (\<forall>i \<in> set (goIds (trace s)). i < length (gors s)) \<and>
      sorted (goIds (trace s)) \<and>
      subseq (map gname (gors s) @ map Name (todo (mpc s))) (map Name (Tasks config)))"





text \<open>
  The status with which \<open>runAllTasks\<close> ends the process follows \<^verbatim>\<open>errorOccurred\<close>, and only a
  task with requirements is skipped.
\<close>

definition inv_code :: "'w state \<Rightarrow> bool" where
  "inv_code s = (\<forall>c. mpc s = M_exit c \<longrightarrow> c = (if errorOccurred s then 1 else 0))"

definition inv_skip :: "Config \<Rightarrow> 'w state \<Rightarrow> bool" where
  "inv_skip config s =
     ((\<forall>n. n \<in># skipNames (trace s) \<longrightarrow>
          (\<exists>task \<in> set (Tasks config). Name task = n \<and> Required task \<noteq> [])) \<and>
      set (todo (mpc s)) \<subseteq> set (Tasks config))"

text \<open>
What holds in every state of every run.
\<close>

definition run_inv :: "Config \<Rightarrow> 'w state \<Rightarrow> bool" where
  "run_inv config s =
     (inv_counts s \<and> inv_exit s \<and> inv_code s \<and> inv_fail s \<and> inv_disp config s \<and>
      inv_started s \<and> inv_active s \<and> inv_order config s \<and> inv_skip config s)"

section \<open>Example workflows\<close>

text \<open>
  The workflows of the examples: three sequential tasks of which the second fails, two
  parallel tasks before a sequential one, two tasks of the same name, and a task that
  requires a name no task has; with states that their runs reach.
\<close>

definition taskA :: Task where
  "taskA = \<lparr>Name = ''A'', Cmds = [''true''], Silent = False, Parallel = False, Required = []\<rparr>"

definition taskB :: Task where
  "taskB = \<lparr>Name = ''B'', Cmds = [''false''], Silent = False, Parallel = False, Required = [''A'']\<rparr>"

definition taskC :: Task where
  "taskC = \<lparr>Name = ''C'', Cmds = [''echo hi''], Silent = False, Parallel = False, Required = [''B'']\<rparr>"

definition workflowABC :: Config where
  "workflowABC = \<lparr>Vars = [], Usage = [], Tasks = [taskA, taskB, taskC]\<rparr>"

definition parA :: Task where
  "parA = \<lparr>Name = ''A'', Cmds = [''false''], Silent = False, Parallel = True, Required = []\<rparr>"

definition parB :: Task where
  "parB = \<lparr>Name = ''B'', Cmds = [''true''], Silent = False, Parallel = True, Required = []\<rparr>"

definition workflowPar :: Config where
  "workflowPar = \<lparr>Vars = [], Usage = [], Tasks = [parA, parB, taskC]\<rparr>"

definition skippedA :: Task where
  "skippedA = \<lparr>Name = ''A'', Cmds = [], Silent = False, Parallel = False, Required = [''X'']\<rparr>"

definition otherA :: Task where
  "otherA = \<lparr>Name = ''A'', Cmds = [], Silent = False, Parallel = False, Required = []\<rparr>"

definition workflowDup :: Config where
  "workflowDup = \<lparr>Vars = [], Usage = [], Tasks = [skippedA, otherA]\<rparr>"


definition failedB :: "string state" where
  "failedB =
     \<lparr>mpc = M_run taskB (Ret True) [taskC], gors = [], chan = 0, wg = 0,
      taskCompleted = [''A'' \<mapsto> True], errorOccurred = False,
      trace = [Running ''A'', CmdStart MainT ''A'' False ''true'' ''true'',
               CmdExit MainT ''A'' False, Completed ''A'', Running ''B'',
               CmdStart MainT ''B'' False ''false'' ''false'', CmdExit MainT ''B'' True],
      world = ''false''\<rparr>"


definition holdingPar :: "string state" where
  "holdingPar =
     \<lparr>mpc = M_send parB [taskC],
      gors = [\<lparr>gname = ''A'', gsilent = False, gpc = G_task (Wait [])\<rparr>], chan = 1, wg = 1,
      taskCompleted = Map.empty, errorOccurred = False,
      trace = [Running ''A'', CmdStart (GoT 0) ''A'' False ''false'' ''false''],
      world = ''false''\<rparr>"

definition finalPar :: "string state" where
  "finalPar =
     \<lparr>mpc = M_exit 1,
      gors = [\<lparr>gname = ''A'', gsilent = False, gpc = G_exit\<rparr>,
              \<lparr>gname = ''B'', gsilent = False, gpc = G_exit\<rparr>], chan = 0, wg = 0,
      taskCompleted = [''A'' \<mapsto> True, ''B'' \<mapsto> True], errorOccurred = True,
      trace = [Running ''A'', CmdStart (GoT 0) ''A'' False ''false'' ''false'',
               CmdExit (GoT 0) ''A'' True, Errored ''A'', Skipping ''C'',
               Running ''B'', CmdStart (GoT 1) ''B'' False ''true'' ''true'',
               CmdExit (GoT 1) ''B'' False, Completed ''B'', ErrorsOccurred],
      world = ''true''\<rparr>"

definition finalDup :: "string state" where
  "finalDup =
     \<lparr>mpc = M_exit 0, gors = [], chan = 0, wg = 0,
      taskCompleted = [''A'' \<mapsto> True], errorOccurred = False,
      trace = [Skipping ''A'', Running ''A'', Completed ''A'', AllCompleted],
      world = []\<rparr>"

definition taskS :: Task where
  "taskS = \<lparr>Name = ''S'', Cmds = [''true''], Silent = False, Parallel = False, Required = [''X'']\<rparr>"

definition taskD :: Task where
  "taskD = \<lparr>Name = ''D'', Cmds = [''true''], Silent = False, Parallel = False, Required = [''S'']\<rparr>"

definition workflowSkip :: Config where
  "workflowSkip = \<lparr>Vars = [], Usage = [], Tasks = [taskS, taskD]\<rparr>"

definition skippedS :: "string state" where
  "skippedS =
     \<lparr>mpc = M_loop [taskD], gors = [], chan = 0, wg = 0,
      taskCompleted = Map.empty, errorOccurred = False,
      trace = [Skipping ''S''], world = []\<rparr>"

section \<open>Properties of the entry point\<close>

lemma parseLoop_usage:
  "fst (parseLoop args variables) = (''usage'' \<in> set args \<or> ''USAGE'' \<in> set args)"
  by (induction args arbitrary: variables) (auto split: option.splits)

lemma flagParse_no_flag:
  "argv = [] \<or> length (hd argv) < 2 \<or> hd (hd argv) \<noteq> CHR ''-'' \<Longrightarrow>
     flagParse argv taskFile quietMode = Parsed taskFile quietMode argv"
  by (cases argv) auto

text \<open>
  Claim C9, as the claim states it, fails: without \<^verbatim>\<open>-w\<close> the command line \<^verbatim>\<open>-q -x\<close> ends
  the process with status 2, in \<^verbatim>\<open>flag.Parse\<close>, and neither usage line of the program is
  written.
\<close>

theorem main_no_workflow_counterexample:
  "main (\<lambda>p. None) (\<lambda>c. None) [''-q'', ''-x''] = Exit 2 [FlagError]"
  by (simp add: main_def flagBody_def flagName_def flagHasValue_def)

text \<open>
  Claim C9, amended. When \<^verbatim>\<open>flag.Parse\<close> accepts the command line and leaves the workflow
  path empty, the process ends with status 0 and no workflow is loaded and no task
  dispatched (the outcome is not \<open>RunAllTasks\<close>). After the banner, unless \<^verbatim>\<open>-q\<close> is set, it
  has written the usage line of \<open>main\<close> (line 84) when no remaining argument is \<open>usage\<close>
  or \<open>USAGE\<close>, and otherwise the usage header of \<open>parseArgs\<close> with an empty usage text and
  no variables instead of that line. A command line without any flag is accepted in
  this way. A command line that \<^verbatim>\<open>flag.Parse\<close> rejects ends with status 2 before any of
  this.
\<close>

theorem main_no_workflow_exit_0:
  "(flagParse argv [] False = Parsed [] quietMode args \<longrightarrow>
      main files unmarshal argv =
        Exit 0 ((if quietMode then [] else [Banner]) @
                (if ''usage'' \<in> set args \<or> ''USAGE'' \<in> set args
                 then [UsageHeader, UsageText [], VarsHeader] else [UsageLine]))) \<and>
   (argv = [] \<or> length (hd argv) < 2 \<or> hd (hd argv) \<noteq> CHR ''-'' \<longrightarrow>
      main files unmarshal argv =
        Exit 0 (Banner #
                (if ''usage'' \<in> set argv \<or> ''USAGE'' \<in> set argv
                 then [UsageHeader, UsageText [], VarsHeader] else [UsageLine]))) \<and>
   (flagParse argv [] False = FlagFailed \<longrightarrow> main files unmarshal argv = Exit 2 [FlagError])"
proof -
  have a: "main files unmarshal argv =
        Exit 0 ((if q then [] else [Banner]) @
                (if ''usage'' \<in> set args \<or> ''USAGE'' \<in> set args
                 then [UsageHeader, UsageText [], VarsHeader] else [UsageLine]))"
    if "flagParse argv [] False = Parsed [] q args" for q args
  proof -
    obtain u vs where p: "parseLoop args Map.empty = (u, vs)"
      by (cases "parseLoop args Map.empty")
    have u: "u = (''usage'' \<in> set args \<or> ''USAGE'' \<in> set args)"
      using parseLoop_usage [of args Map.empty] p by simp
    show ?thesis
      using u that by (auto simp: main_def ReadFile_def parseArgs_def p lookupStr_def)
  qed
  have b: "main files unmarshal argv =
        Exit 0 (Banner #
                (if ''usage'' \<in> set argv \<or> ''USAGE'' \<in> set argv
                 then [UsageHeader, UsageText [], VarsHeader] else [UsageLine]))"
    if "argv = [] \<or> length (hd argv) < 2 \<or> hd (hd argv) \<noteq> CHR ''-''"
    using a [of False argv] flagParse_no_flag [OF that, of "[]" False] by simp
  have c: "main files unmarshal argv = Exit 2 [FlagError]"
    if "flagParse argv [] False = FlagFailed"
    using that by (simp add: main_def)
  from a b c show ?thesis by blast
qed

theorem main_no_workflow_exit_0_witness:
  "flagParse [''-q'', ''--'', ''-x'', ''usage''] [] False = Parsed [] True [''-x'', ''usage''] \<and>
   main (\<lambda>p. None) (\<lambda>c. None) [''-q'', ''--'', ''-x'', ''usage''] =
     Exit 0 [UsageHeader, UsageText [], VarsHeader] \<and>
   main (\<lambda>p. Some ''modules: []'') (\<lambda>c. Some \<lparr>Vars = [], Usage = [], Tasks = []\<rparr>)
     [''DOMAIN=example.host''] = Exit 0 [Banner, UsageLine] \<and>
   flagParse [''-q=maybe''] [] False = FlagFailed \<and>
   main (\<lambda>p. None) (\<lambda>c. None) [''-q=maybe''] = Exit 2 [FlagError]"
proof -
  have p: "flagParse [''-q'', ''--'', ''-x'', ''usage''] [] False = Parsed [] True [''-x'', ''usage'']"
    by (simp add: flagBody_def flagName_def flagHasValue_def)
  have f: "flagParse [''-q=maybe''] [] False = FlagFailed"
    by (simp add: flagBody_def flagName_def flagHasValue_def flagValue_def ParseBool_def)
  show ?thesis
    using main_no_workflow_exit_0 [of "[''-q'', ''--'', ''-x'', ''usage'']" True "[''-x'', ''usage'']"
            "\<lambda>p. None" "\<lambda>c. None"]
          main_no_workflow_exit_0 [of "[''DOMAIN=example.host'']" False "[]"
            "\<lambda>p. Some ''modules: []''" "\<lambda>c. Some \<lparr>Vars = [], Usage = [], Tasks = []\<rparr>"]
          main_no_workflow_exit_0 [of "[''-q=maybe'']" False "[]" "\<lambda>p. None" "\<lambda>c. None"]
          p f
    by simp
qed

section \<open>Properties of runTask\<close>

lemma rt_run_Iter:
  "rt_run sh t n silent vars (Iter cmds) w =
     (case runCmds sh t n silent vars cmds w of
        (hasError, evs, w') \<Rightarrow>
          if hasError then (True, evs, w') else (False, evs @ [Completed n], w'))"
proof (induction cmds arbitrary: w)
  case Nil
  show ?case by (simp add: rt_run.simps(1,3))
next
  case (Cons c cs)
  define r where "r = replacePlaceholders c (rangeOrder sh vars w)"
  obtain e1 w2 where pw: "procWait sh t (procStart sh t r silent w) = (e1, w2)"
    by (cases "procWait sh t (procStart sh t r silent w)")
  have "rt_run sh t n silent vars (Iter (c # cs)) w =
          (case rt_run sh t n silent vars (Wait cs) (procStart sh t r silent w) of
             (err, evs', w'') \<Rightarrow> (err, CmdStart t n silent c r # evs', w''))"
    by (simp add: rt_run.simps(3) Let_def r_def)
  also have "rt_run sh t n silent vars (Wait cs) (procStart sh t r silent w) =
          (case rt_run sh t n silent vars (if e1 then Ret True else Iter cs) w2 of
             (err, evs', w'') \<Rightarrow> (err, CmdExit t n e1 # evs', w''))"
    by (simp add: rt_run.simps(4) pw)
  finally show ?case
    by (cases e1)
       (simp_all add: rt_run.simps(1) Cons.IH executeCommand_def Let_def pw r_def [symmetric]
          split: prod.splits)
qed

lemma rt_run_runTask:
  "rt_run sh t n silent vars (Enter cmds) w = runTask sh t n cmds silent vars w"
  by (simp add: rt_run.simps(2) rt_run_Iter runTask_def split: prod.splits)

lemma startedCmds_simps [simp]:
  "startedCmds [] = []"
  "startedCmds (e # evs) = (case e of CmdStart t n sil c r \<Rightarrow> [c] | _ \<Rightarrow> []) @ startedCmds evs"
  "startedCmds (evs @ evs') = startedCmds evs @ startedCmds evs'"
  by (simp_all add: startedCmds_def)

lemma exitErrs_simps [simp]:
  "exitErrs [] = []"
  "exitErrs (e # evs) = (case e of CmdExit t n err \<Rightarrow> [err] | _ \<Rightarrow> []) @ exitErrs evs"
  "exitErrs (evs @ evs') = exitErrs evs @ exitErrs evs'"
  by (simp_all add: exitErrs_def)

lemma executeCommand_childRun:
  "executeCommand sh t n cmd silent vars w =
     (fst (childRun sh t silent vars cmd w),
      [CmdStart t n silent cmd (replacePlaceholders cmd (rangeOrder sh vars w)),
       CmdExit t n (fst (childRun sh t silent vars cmd w))],
      snd (childRun sh t silent vars cmd w))"
  by (simp add: executeCommand_def childRun_def Let_def split: prod.splits)

lemma runCmds_all_zero:
  "allExitZero sh t silent vars cmds w = Some w1 \<Longrightarrow>
     \<exists>evs. runCmds sh t n silent vars cmds w = (False, evs, w1) \<and>
           startedCmds evs = cmds \<and> exitErrs evs = replicate (length cmds) False \<and>
           Completed n \<notin> set evs \<and> Running n \<notin> set evs"
proof (induction cmds arbitrary: w)
  case Nil
  then show ?case by simp
next
  case (Cons c cs)
  obtain e w' where c: "childRun sh t silent vars c w = (e, w')"
    by (cases "childRun sh t silent vars c w")
  with Cons.prems have e: "\<not> e" and r: "allExitZero sh t silent vars cs w' = Some w1"
    by (auto split: if_splits)
  from Cons.IH [OF r] obtain evs where
    evs: "runCmds sh t n silent vars cs w' = (False, evs, w1)" "startedCmds evs = cs"
      "exitErrs evs = replicate (length cs) False" "Completed n \<notin> set evs" "Running n \<notin> set evs"
    by blast
  show ?case
    using c e evs by (simp add: executeCommand_childRun)
qed

lemma runCmds_first_failure:
  "allExitZero sh t silent vars pre w = Some w1 \<Longrightarrow>
   childRun sh t silent vars c w1 = (True, w2) \<Longrightarrow>
     \<exists>evs. runCmds sh t n silent vars (pre @ c # post) w = (True, evs, w2) \<and>
           startedCmds evs = pre @ [c] \<and> exitErrs evs = replicate (length pre) False @ [True] \<and>
           Completed n \<notin> set evs \<and> Running n \<notin> set evs"
proof (induction pre arbitrary: w)
  case Nil
  then show ?case by (simp add: executeCommand_childRun)
next
  case (Cons p ps)
  obtain e w' where c: "childRun sh t silent vars p w = (e, w')"
    by (cases "childRun sh t silent vars p w")
  with Cons.prems have e: "\<not> e" and r: "allExitZero sh t silent vars ps w' = Some w1"
    by (auto split: if_splits)
  from Cons.IH [OF r Cons.prems(2)] obtain evs where
    evs: "runCmds sh t n silent vars (ps @ c # post) w' = (True, evs, w2)"
      "startedCmds evs = ps @ [c]" "exitErrs evs = replicate (length ps) False @ [True]"
      "Completed n \<notin> set evs" "Running n \<notin> set evs"
    by blast
  show ?case
    using c e evs by (simp add: executeCommand_childRun)
qed

text \<open>
  Claim C3. A task is fail-fast. Let the commands before \<open>c\<close> each exit with status zero
  when they are run in order from the world \<open>w\<close>, and let the child of \<open>c\<close> then exit with
  another status. Then \<open>runTask\<close> reports the failure; it has started exactly the commands
  up to \<open>c\<close>, in order, so none of the commands after \<open>c\<close>; the world is the one the child
  of \<open>c\<close> left; and the completion message is not written. If every command exits with
  status zero, \<open>runTask\<close> reports success, all the commands were run in order, the world
  is the one the last child left, and the last message is the completion message.
\<close>

theorem runTask_fail_fast:
  "(allExitZero sh t silent vars pre w = Some w1 \<longrightarrow>
    childRun sh t silent vars c w1 = (True, w2) \<longrightarrow>
      (\<exists>evs. runTask sh t n (pre @ c # post) silent vars w = (True, evs, w2) \<and>
             startedCmds evs = pre @ [c] \<and>
             exitErrs evs = replicate (length pre) False @ [True] \<and>
             Completed n \<notin> set evs)) \<and>
   (allExitZero sh t silent vars cmds w = Some w3 \<longrightarrow>
      (\<exists>evs. runTask sh t n cmds silent vars w = (False, evs, w3) \<and>
             startedCmds evs = cmds \<and>
             exitErrs evs = replicate (length cmds) False \<and>
             last evs = Completed n))"
proof (intro conjI impI)
  assume a: "allExitZero sh t silent vars pre w = Some w1"
    and c: "childRun sh t silent vars c w1 = (True, w2)"
  from runCmds_first_failure [OF a c, of n post] obtain evs where
    evs: "runCmds sh t n silent vars (pre @ c # post) w = (True, evs, w2)"
      "startedCmds evs = pre @ [c]" "exitErrs evs = replicate (length pre) False @ [True]"
      "Completed n \<notin> set evs"
    by blast
  then have "runTask sh t n (pre @ c # post) silent vars w = (True, Running n # evs, w2) \<and>
             startedCmds (Running n # evs) = pre @ [c] \<and>
             exitErrs (Running n # evs) = replicate (length pre) False @ [True] \<and>
             Completed n \<notin> set (Running n # evs)"
    by (simp add: runTask_def)
  then show "\<exists>evs. runTask sh t n (pre @ c # post) silent vars w = (True, evs, w2) \<and>
             startedCmds evs = pre @ [c] \<and>
             exitErrs evs = replicate (length pre) False @ [True] \<and>
             Completed n \<notin> set evs"
    by blast
next
  assume a: "allExitZero sh t silent vars cmds w = Some w3"
  from runCmds_all_zero [OF a, of n] obtain evs where
    evs: "runCmds sh t n silent vars cmds w = (False, evs, w3)"
      "startedCmds evs = cmds" "exitErrs evs = replicate (length cmds) False"
    by blast
  then have "runTask sh t n cmds silent vars w = (False, Running n # evs @ [Completed n], w3) \<and>
             startedCmds (Running n # evs @ [Completed n]) = cmds \<and>
             exitErrs (Running n # evs @ [Completed n]) = replicate (length cmds) False \<and>
             last (Running n # evs @ [Completed n]) = Completed n"
    by (simp add: runTask_def)
  then show "\<exists>evs. runTask sh t n cmds silent vars w = (False, evs, w3) \<and>
             startedCmds evs = cmds \<and>
             exitErrs evs = replicate (length cmds) False \<and>
             last evs = Completed n"
    by blast
qed

theorem runTask_fail_fast_witness:
  "allExitZero demoShell MainT False Map.empty [''true''] [] = Some ''true'' \<and>
   childRun demoShell MainT False Map.empty ''false'' ''true'' = (True, ''false'') \<and>
   fst (runTask demoShell MainT ''B'' [''true'', ''false'', ''echo hi''] False Map.empty []) \<and>
   startedCmds (fst (snd (runTask demoShell MainT ''B'' [''true'', ''false'', ''echo hi'']
     False Map.empty []))) = [''true'', ''false''] \<and>
   allExitZero demoShell MainT False Map.empty [''true'', ''echo hi''] [] = Some ''echo hi'' \<and>
   \<not> fst (runTask demoShell MainT ''A'' [''true'', ''echo hi''] False Map.empty []) \<and>
   startedCmds (fst (snd (runTask demoShell MainT ''A'' [''true'', ''echo hi'']
     False Map.empty []))) = [''true'', ''echo hi'']"
proof -
  have a: "allExitZero demoShell MainT False Map.empty [''true''] [] = Some ''true''"
    by (simp add: childRun_def demoShell_def replacePlaceholders_def)
  have b: "childRun demoShell MainT False Map.empty ''false'' ''true'' = (True, ''false'')"
    by (simp add: childRun_def demoShell_def replacePlaceholders_def)
  have c: "allExitZero demoShell MainT False Map.empty [''true'', ''echo hi''] [] = Some ''echo hi''"
    by (simp add: childRun_def demoShell_def replacePlaceholders_def)
  show ?thesis
    using runTask_fail_fast [where sh = demoShell and t = MainT and silent = False
            and vars = Map.empty and pre = "[''true'']" and w = "[]" and ?w1.0 = "''true''"
            and c = "''false''" and ?w2.0 = "''false''" and n = "''B''" and post = "[''echo hi'']"
            and cmds = "[]" and ?w3.0 = "[]"]
          runTask_fail_fast [where sh = demoShell and t = MainT and silent = False
            and vars = Map.empty and pre = "[]" and w = "[]" and ?w1.0 = "[]"
            and c = "''false''" and ?w2.0 = "''false''" and n = "''A''" and post = "[]"
            and cmds = "[''true'', ''echo hi'']" and ?w3.0 = "''echo hi''"] a b c
    by auto
qed

section \<open>Properties of the placeholder substitution\<close>

lemma placeholder_not_Nil [simp]: "placeholder k \<noteq> []"
  by (simp add: placeholder_def)

lemma ReplaceAll_Nil: "ReplaceAll [] (placeholder k) v = []"
  by (simp add: ReplaceAll.simps)

lemma ReplaceAll_match:
  "ReplaceAll (placeholder k @ y) (placeholder k) v = v @ ReplaceAll y (placeholder k) v"
  by (subst ReplaceAll.simps) simp

lemma ReplaceAll_skip:
  "\<not> prefix (placeholder k) (c # y) \<Longrightarrow>
     ReplaceAll (c # y) (placeholder k) v = c # ReplaceAll y (placeholder k) v"
  by (subst ReplaceAll.simps) simp

lemma ReplaceAll_skip_word:
  "CHR ''{'' \<notin> set x \<Longrightarrow>
     ReplaceAll (x @ y) (placeholder k) v = x @ ReplaceAll y (placeholder k) v"
proof (induction x)
  case Nil
  show ?case by simp
next
  case (Cons a x)
  then have "\<not> prefix (placeholder k) (a # x @ y)"
    by (auto simp: placeholder_def)
  with Cons show ?case by (simp add: ReplaceAll_skip)
qed

lemma tokenAt_no_open: "c \<noteq> CHR ''{'' \<Longrightarrow> tokenAt (c # t) = None"
  by (simp add: tokenAt_def)

lemma render_skip_word: "CHR ''{'' \<notin> set x \<Longrightarrow> render_spec env (x @ t) = x @ render_spec env t"
  by (induction x) (auto simp: tokenAt_no_open)

lemma render_unbound_token:
  assumes "braceFree k" and "env k = None"
  shows "render_spec env (placeholder k @ rest) = placeholder k @ render_spec env rest"
proof -
  have 1: "tokenAt (''{{'' @ k @ ''}}'' @ rest) = Some (k, rest)"
    using assms(1) by (simp add: tokenAt_Some)
  have "\<not> prefix ''{{'' (''{'' @ k @ ''}}'' @ rest)"
    using assms(1) by (cases k) (auto simp: braceFree_def isBrace_def)
  then have 2: "tokenAt (''{'' @ k @ ''}}'' @ rest) = None"
    by (simp add: tokenAt_def)
  have 3: "CHR ''{'' \<notin> set (k @ ''}}'')"
    using assms(1) by (auto simp: braceFree_def isBrace_def)
  have "render_spec env (''{{'' @ k @ ''}}'' @ rest) = CHR ''{'' # render_spec env (''{'' @ k @ ''}}'' @ rest)"
    using 1 assms(2) by simp
  also have "render_spec env (''{'' @ k @ ''}}'' @ rest) = CHR ''{'' # render_spec env ((k @ ''}}'') @ rest)"
    using 2 by simp
  also have "render_spec env ((k @ ''}}'') @ rest) = (k @ ''}}'') @ render_spec env rest"
    using 3 by (rule render_skip_word)
  finally show ?thesis by (simp add: placeholder_def)
qed

text \<open>A step of \<open>render_spec\<close> that is no replacement copies one character.\<close>

lemma render_Cons_cases:
  obtains (bound) k rest v where "tokenAt (c # t) = Some (k, rest)" "env k = Some v"
      "render_spec env (c # t) = v @ render_spec env rest"
  | (copy) "\<And>k rest. tokenAt (c # t) = Some (k, rest) \<Longrightarrow> env k = None"
      "render_spec env (c # t) = c # render_spec env t"
proof (cases "tokenAt (c # t)")
  case None
  then show ?thesis by (intro copy) simp_all
next
  case (Some p)
  obtain k rest where p: "p = (k, rest)" by (cases p)
  show ?thesis
  proof (cases "env k")
    case None
    with Some p show ?thesis by (intro copy) simp_all
  next
    case (Some v)
    with \<open>tokenAt (c # t) = Some p\<close> p show ?thesis by (intro bound [of k rest v]) simp_all
  qed
qed

lemma prefix_braceFree:
  assumes "prefix v (x @ ''}}'' @ z)" and "braceFree v"
  shows "prefix v x"
proof -
  from assms(1) have "prefix v x \<or> (\<exists>us. v = x @ us \<and> prefix us (''}}'' @ z))"
    by (simp add: prefix_append)
  then show ?thesis
  proof (elim disjE exE conjE)
    fix us
    assume v: "v = x @ us" and us: "prefix us (''}}'' @ z)"
    show ?thesis
    proof (cases us)
      case Nil
      with v show ?thesis by simp
    next
      case (Cons u us')
      with us have "u = CHR ''}''" by simp
      with v Cons assms(2) show ?thesis by (auto simp: braceFree_def isBrace_def)
    qed
  qed
qed

lemma render_prefix_key:
  assumes "\<forall>v \<in> ran env. braceFree v \<and> \<not> sublist v x"
    and "prefix (x @ ''}}'') (render_spec env t)"
  shows "prefix (x @ ''}}'') t"
  using assms
proof (induction x arbitrary: t)
  case Nil
  from Nil.prems(1) have ne: "\<And>v. v \<in> ran env \<Longrightarrow> v \<noteq> [] \<and> braceFree v" by auto
  have close: "\<exists>t'. t = CHR ''}'' # t' \<and> render_spec env t = CHR ''}'' # render_spec env t'"
    if "prefix ''}'' (render_spec env t)" for t
  proof (cases t)
    case Nil
    with that show ?thesis by simp
  next
    case (Cons c t')
    show ?thesis
    proof (cases rule: render_Cons_cases [of c t' env])
      case (bound k rest v)
      then have "v \<in> ran env" by (auto simp: ran_def)
      with ne have "v \<noteq> []" "braceFree v" by auto
      with that bound(3) Cons show ?thesis
        by (cases v) (auto simp: braceFree_def isBrace_def)
    next
      case copy
      with that Cons show ?thesis by auto
    qed
  qed
  from Nil.prems(2) have "prefix ''}'' (render_spec env t)" by (auto simp: prefix_def)
  from close [OF this] obtain t' where t': "t = CHR ''}'' # t'"
    "render_spec env t = CHR ''}'' # render_spec env t'" by blast
  with Nil.prems(2) have "prefix ''}'' (render_spec env t')" by simp
  from close [OF this] obtain t'' where "t' = CHR ''}'' # t''" by blast
  with t' show ?case by simp
next
  case (Cons a x)
  from Cons.prems(1) have vals: "\<forall>v \<in> ran env. braceFree v \<and> \<not> sublist v x"
    by (auto dest: sublist_Cons_right [THEN iffD2, OF disjI2])
  show ?case
  proof (cases t)
    case Nil
    with Cons.prems(2) show ?thesis by simp
  next
    case t: (Cons c t')
    show ?thesis
    proof (cases rule: render_Cons_cases [of c t' env])
      case (bound k rest v)
      then have "v \<in> ran env" by (auto simp: ran_def)
      with Cons.prems(1) have v: "braceFree v" "\<not> sublist v (a # x)" by auto
      from Cons.prems(2) bound(3) t
      have "prefix ((a # x) @ ''}}'') (v @ render_spec env rest)" by simp
      moreover have "prefix v (v @ render_spec env rest)" by simp
      ultimately consider "prefix v ((a # x) @ ''}}'' @ [])" | "prefix ((a # x) @ ''}}'') v"
        using prefix_same_cases [of v "v @ render_spec env rest" "(a # x) @ ''}}''"] by auto
      then show ?thesis
      proof cases
        case 1
        from prefix_braceFree [OF 1 v(1)] have "sublist v (a # x)"
          by (rule prefix_imp_sublist)
        with v(2) show ?thesis by simp
      next
        case 2
        then have "CHR ''}'' \<in> set v" by (auto simp: prefix_def)
        with v(1) show ?thesis by (auto simp: braceFree_def isBrace_def)
      qed
    next
      case copy
      with Cons.prems(2) t have "c = a" "prefix (x @ ''}}'') (render_spec env t')" by auto
      with Cons.IH [OF vals, of t'] t show ?thesis by simp
    qed
  qed
qed

lemma render_prefix_placeholder:
  assumes "\<forall>v \<in> ran env. braceFree v \<and> \<not> sublist v k"
    and "prefix (placeholder k) (c # render_spec env t)"
  shows "prefix (placeholder k) (c # t)"
proof -
  from assms(2) have c: "c = CHR ''{''" and p: "prefix (''{'' @ k @ ''}}'') (render_spec env t)"
    by (auto simp: placeholder_def)
  show ?thesis
  proof (cases t)
    case Nil
    with p show ?thesis by simp
  next
    case t: (Cons c' t')
    show ?thesis
    proof (cases rule: render_Cons_cases [of c' t' env])
      case (bound k' rest v)
      then have "v \<in> ran env" by (auto simp: ran_def)
      with assms(1) have "braceFree v" "v \<noteq> []" by auto
      with p bound(3) t show ?thesis
        by (cases v) (auto simp: braceFree_def isBrace_def)
    next
      case copy
      with p t have "c' = CHR ''{''" "prefix (k @ ''}}'') (render_spec env t')" by auto
      with render_prefix_key [OF assms(1), of t'] c t show ?thesis
        by (simp add: placeholder_def)
    qed
  qed
qed

declare render_spec.simps(2) [simp del]

lemma ReplaceAll_render:
  assumes "braceFree k" and "env k = None"
    and "\<forall>v' \<in> ran env. braceFree v' \<and> \<not> sublist v' k"
  shows "ReplaceAll (render_spec env s) (placeholder k) v = render_spec (env(k \<mapsto> v)) s"
proof (induction s rule: length_induct)
  case (1 s)
  show ?case
  proof (cases s)
    case Nil
    then show ?thesis by (simp add: ReplaceAll_Nil)
  next
    case s: (Cons c t)
    show ?thesis
    proof (cases rule: render_Cons_cases [of c t env])
      case (bound k' rest v')
      with assms(2) have ne: "k' \<noteq> k" by auto
      from bound(2) have "v' \<in> ran env" by (auto simp: ran_def)
      with assms(3) have "CHR ''{'' \<notin> set v'" by (auto simp: braceFree_def isBrace_def)
      then have e1: "ReplaceAll (v' @ render_spec env rest) (placeholder k) v =
                   v' @ ReplaceAll (render_spec env rest) (placeholder k) v"
        by (rule ReplaceAll_skip_word)
      have "length rest < length s"
        using tokenAt_shorter [OF bound(1)] s by simp
      with 1 have e2: "ReplaceAll (render_spec env rest) (placeholder k) v = render_spec (env(k \<mapsto> v)) rest"
        by blast
      have e3: "render_spec (env(k \<mapsto> v)) (c # t) = v' @ render_spec (env(k \<mapsto> v)) rest"
        using bound(1,2) ne by (simp add: render_spec.simps(2))
      show ?thesis by (simp only: s bound(3) e1 e2 e3)
    next
      case copy
      show ?thesis
      proof (cases "prefix (placeholder k) (c # t)")
        case True
        then obtain rest where rest: "c # t = placeholder k @ rest"
          by (auto simp: prefix_def)
        then have tok: "tokenAt (c # t) = Some (k, rest)"
          using assms(1) by (simp add: tokenAt_Some placeholder_def)
        have "length rest < length s"
          using tokenAt_shorter [OF tok] s by simp
        with 1 have e2: "ReplaceAll (render_spec env rest) (placeholder k) v = render_spec (env(k \<mapsto> v)) rest"
          by blast
        have e1: "render_spec env (c # t) = placeholder k @ render_spec env rest"
          using render_unbound_token [of k env rest] assms(1,2) rest by simp
        have e3: "render_spec (env(k \<mapsto> v)) (c # t) = v @ render_spec (env(k \<mapsto> v)) rest"
          using tok by (simp add: render_spec.simps(2))
        show ?thesis by (simp only: s e1 ReplaceAll_match e2 e3)
      next
        case False
        with render_prefix_placeholder [OF assms(3), of c t]
        have "\<not> prefix (placeholder k) (c # render_spec env t)" by blast
        then have e1: "ReplaceAll (c # render_spec env t) (placeholder k) v =
                     c # ReplaceAll (render_spec env t) (placeholder k) v"
          by (rule ReplaceAll_skip)
        have "length t < length s" using s by simp
        with 1 have e2: "ReplaceAll (render_spec env t) (placeholder k) v =
                     render_spec (env(k \<mapsto> v)) t"
          by blast
        have e3: "render_spec (env(k \<mapsto> v)) (c # t) = c # render_spec (env(k \<mapsto> v)) t"
        proof (cases "tokenAt (c # t)")
          case None
          then show ?thesis by (simp add: render_spec.simps(2))
        next
          case (Some p)
          obtain k' rest where p: "p = (k', rest)" by (cases p)
          with Some have tok: "tokenAt (c # t) = Some (k', rest)" by simp
          from copy(1) [OF tok] have "env k' = None" .
          moreover have "k' \<noteq> k"
          proof
            assume "k' = k"
            with tok have "c # t = placeholder k @ rest"
              by (simp add: tokenAt_Some placeholder_def)
            with False show False by (simp add: prefix_def)
          qed
          ultimately show ?thesis using tok by (simp add: render_spec.simps(2))
        qed
        show ?thesis by (simp only: s copy(2) e1 e2 e3)
      qed
    qed
  qed
qed

lemma separable_snoc:
  assumes "separable (kvs @ [(k, v)])"
  shows "separable kvs" and "braceFree k" and "map_of kvs k = None"
    and "\<forall>v' \<in> ran (map_of kvs). braceFree v' \<and> \<not> sublist v' k"
proof -
  from assms show "separable kvs" by (auto simp: separable_def)
  from assms show "braceFree k" by (auto simp: separable_def)
  from assms have nk: "k \<notin> fst ` set kvs" by (auto simp: separable_def)
  then show "map_of kvs k = None" by (simp add: map_of_eq_None_iff)
  show "\<forall>v' \<in> ran (map_of kvs). braceFree v' \<and> \<not> sublist v' k"
  proof
    fix v'
    assume "v' \<in> ran (map_of kvs)"
    then obtain k' where "map_of kvs k' = Some v'" by (auto simp: ran_def)
    then have m: "(k', v') \<in> set kvs" by (rule map_of_SomeD)
    with nk have "k \<noteq> k'" by force
    with assms m show "braceFree v' \<and> \<not> sublist v' k"
      by (fastforce simp: separable_def)
  qed
qed

lemma replacePlaceholders_render:
  "separable kvs \<Longrightarrow> replacePlaceholders s kvs = render_spec (map_of kvs) s"
proof (induction kvs rule: rev_induct)
  case Nil
  have "render_spec Map.empty s = s" for s
    by (induction s) (simp_all add: render_spec.simps(2) split: option.splits)
  then show ?case by (simp add: replacePlaceholders_def)
next
  case (snoc kv kvs)
  obtain k v where kv: "kv = (k, v)" by (cases kv)
  note sep = separable_snoc [OF snoc.prems [unfolded kv]]
  have "replacePlaceholders s (kvs @ [kv]) =
          ReplaceAll (replacePlaceholders s kvs) (placeholder k) v"
    by (simp add: replacePlaceholders_def kv)
  also have "\<dots> = ReplaceAll (render_spec (map_of kvs) s) (placeholder k) v"
    using snoc.IH [OF sep(1)] by simp
  also have "\<dots> = render_spec ((map_of kvs)(k \<mapsto> v)) s"
    using sep(2,3,4) by (rule ReplaceAll_render)
  also have "(map_of kvs)(k \<mapsto> v) = map_of (kvs @ [kv])"
    using sep(3) by (auto simp: kv map_add_def fun_eq_iff split: option.splits)
  finally show ?case .
qed

lemma applyDefaults_apply:
  "applyDefaults defaultVars variables x =
     (case variables x of Some v \<Rightarrow> Some v | None \<Rightarrow> map_of defaultVars x)"
  by (induction defaultVars variables rule: applyDefaults.induct)
     (auto split: option.splits)

lemma render_token:
  assumes "braceFree x"
  shows "render_spec env (placeholder x @ rest) =
           (case env x of Some v \<Rightarrow> v | None \<Rightarrow> placeholder x) @ render_spec env rest"
proof (cases "env x")
  case None
  with render_unbound_token [of x env rest] assms show ?thesis by simp
next
  case (Some v)
  have "tokenAt (''{{'' @ x @ ''}}'' @ rest) = Some (x, rest)"
    using assms by (simp add: tokenAt_Some)
  with Some show ?thesis by (simp add: placeholder_def render_spec.simps(2))
qed

lemma separable_mset:
  assumes "separable kvs" and "mset kvs' = mset kvs"
  shows "separable kvs'" and "map_of kvs' = map_of kvs"
proof -
  from assms(2) have s: "set kvs' = set kvs" by (rule mset_eq_setD)
  from assms(2) have "mset (map fst kvs') = mset (map fst kvs)" by simp
  then have d: "distinct (map fst kvs') \<longleftrightarrow> distinct (map fst kvs)"
    by (rule mset_eq_imp_distinct_iff)
  from assms(1) s d show "separable kvs'" by (simp add: separable_def)
  from assms(1) have dk: "distinct (map fst kvs)" by (simp add: separable_def)
  with d have dk': "distinct (map fst kvs')" by simp
  show "map_of kvs' = map_of kvs"
    using map_of_inject_set [OF dk' dk] s by simp
qed

text \<open>
  Claim C4, as the claim states it, fails. With the default \<^verbatim>\<open>Y: z\<close> and the override
  \<^verbatim>\<open>X={{Y}}\<close> the merged variables are \<open>X\<close> and \<open>Y\<close>, and when the range loop visits \<open>X\<close>
  before \<open>Y\<close> the command \<^verbatim>\<open>{{X}}\<close> is rendered as \<^verbatim>\<open>z\<close>, which is not the override
  value of \<open>X\<close>; visiting \<open>Y\<close> first gives that value.
\<close>

theorem placeholder_value_counterexample:
  "parseArgs [(''Y'', ''z'')] [''X={{Y}}''] = Inr (map_of [(''X'', ''{{Y}}''), (''Y'', ''z'')]) \<and>
   replacePlaceholders ''{{X}}'' [(''X'', ''{{Y}}''), (''Y'', ''z'')] = ''z'' \<and>
   replacePlaceholders ''{{X}}'' [(''Y'', ''z''), (''X'', ''{{Y}}'')] = ''{{Y}}''"
  by (auto simp: parseArgs_def SplitN2_def replacePlaceholders_def placeholder_def
      ReplaceAll.simps fun_eq_iff)

text \<open>
  Claim C4, amended. Let the merged variables be such that their names and values
  contain no brace and no value occurs inside the name of another variable
  (\<open>separable\<close>; the range loop visits them in the order \<open>kvs\<close>). Then the rendered
  command is the command with every token \<^verbatim>\<open>{{X}}\<close> replaced at once (\<open>render_spec\<close>): by the
  value of \<open>X\<close> in the merged variables, which is the override given on the command
  line when there is one and else the default of the workflow, and a token whose name
  is not among the variables stays as it is. Nothing in this can fail.
\<close>

theorem placeholder_value:
  assumes "parseArgs defaultVars args = Inr variables"
    and "map_of kvs = variables" and "separable kvs"
  shows "replacePlaceholders cmd kvs = render_spec variables cmd \<and>
         (\<forall>x. variables x =
            (case snd (parseLoop args Map.empty) x of
               Some v \<Rightarrow> Some v
             | None \<Rightarrow> map_of defaultVars x)) \<and>
         (\<forall>x rest. braceFree x \<longrightarrow>
            render_spec variables (placeholder x @ rest) =
              (case variables x of Some v \<Rightarrow> v | None \<Rightarrow> placeholder x) @
              render_spec variables rest)"
proof -
  have 1: "replacePlaceholders cmd kvs = render_spec variables cmd"
    using replacePlaceholders_render [OF assms(3), of cmd] assms(2) by simp
  have 2: "variables x =
            (case snd (parseLoop args Map.empty) x of
               Some v \<Rightarrow> Some v
             | None \<Rightarrow> map_of defaultVars x)" for x
    using assms(1)
    by (auto simp: parseArgs_def applyDefaults_apply split: prod.splits if_splits)
  from 1 2 render_token show ?thesis by blast
qed

theorem placeholder_value_witness:
  "parseArgs [(''Y'', ''z'')] [''X=1''] = Inr (map_of [(''X'', ''1''), (''Y'', ''z'')]) \<and>
   separable [(''X'', ''1''), (''Y'', ''z'')] \<and>
   replacePlaceholders ''echo {{X}} {{Y}} {{Q}}'' [(''X'', ''1''), (''Y'', ''z'')] =
     ''echo 1 z {{Q}}''"
proof -
  have p: "parseArgs [(''Y'', ''z'')] [''X=1''] = Inr (map_of [(''X'', ''1''), (''Y'', ''z'')])"
    by (auto simp: parseArgs_def SplitN2_def fun_eq_iff)
  have s: "separable [(''X'', ''1''), (''Y'', ''z'')]"
    by (simp add: separable_def braceFree_def isBrace_def sublist_code)
  have r: "render_spec (map_of [(''X'', ''1''), (''Y'', ''z'')]) ''echo {{X}} {{Y}} {{Q}}'' =
             ''echo 1 z {{Q}}''"
    by (simp add: render_spec.simps(2) tokenAt_def isBrace_def)
  from placeholder_value [OF p refl s, of "''echo {{X}} {{Y}} {{Q}}''"] p s r
  show ?thesis by simp
qed

text \<open>
  Claim C10, as the claim states it, fails: the values \<^verbatim>\<open>B\<close> and \<^verbatim>\<open>x\<close> contain no token at
  all, and the two orders of the variables \<open>A\<close> and \<open>B\<close> give different strings for
  \<^verbatim>\<open>{{{{A}}}}\<close>.
\<close>

theorem replacePlaceholders_order_counterexample:
  "noBoundToken [(''A'', ''B''), (''B'', ''x'')] \<and>
   replacePlaceholders ''{{{{A}}}}'' [(''A'', ''B''), (''B'', ''x'')] = ''x'' \<and>
   replacePlaceholders ''{{{{A}}}}'' [(''B'', ''x''), (''A'', ''B'')] = ''{{B}}''"
  by (simp add: noBoundToken_def sublist_code replacePlaceholders_def placeholder_def
      ReplaceAll.simps)

text \<open>
  Claim C10, amended. The result does not depend on the order in which the variables
  are applied under a stronger precondition: the names of the variables are distinct,
  names and values contain no brace, and no value occurs inside the name of another
  variable (so no value is empty when there are two variables). Then any two orders of
  the same variables give the same string, the one that \<open>render_spec\<close> gives in one pass.
\<close>

theorem replacePlaceholders_order:
  assumes "separable kvs" and "mset kvs' = mset kvs"
  shows "replacePlaceholders s kvs' = replacePlaceholders s kvs \<and>
         replacePlaceholders s kvs = render_spec (map_of kvs) s"
  using replacePlaceholders_render [OF assms(1), of s]
    replacePlaceholders_render [OF separable_mset(1) [OF assms], of s]
    separable_mset(2) [OF assms]
  by simp

theorem replacePlaceholders_order_witness:
  "separable [(''HOST'', ''example.org''), (''PORT'', ''80'')] \<and>
   mset [(''PORT'', ''80''), (''HOST'', ''example.org'')] =
     mset [(''HOST'', ''example.org''), (''PORT'', ''80'')] \<and>
   replacePlaceholders ''nc {{HOST}} {{PORT}}'' [(''PORT'', ''80''), (''HOST'', ''example.org'')] =
     replacePlaceholders ''nc {{HOST}} {{PORT}}'' [(''HOST'', ''example.org''), (''PORT'', ''80'')] \<and>
   replacePlaceholders ''nc {{HOST}} {{PORT}}'' [(''HOST'', ''example.org''), (''PORT'', ''80'')] =
     ''nc example.org 80''"
proof -
  have s: "separable [(''HOST'', ''example.org''), (''PORT'', ''80'')]"
    by (simp add: separable_def braceFree_def isBrace_def sublist_code)
  have m: "mset [(''PORT'', ''80''), (''HOST'', ''example.org'')] =
     mset [(''HOST'', ''example.org''), (''PORT'', ''80'')]"
    by simp
  have r: "render_spec (map_of [(''HOST'', ''example.org''), (''PORT'', ''80'')])
             ''nc {{HOST}} {{PORT}}'' = ''nc example.org 80''"
    by (simp add: render_spec.simps(2) tokenAt_def isBrace_def)
  from replacePlaceholders_order [OF s m, of "''nc {{HOST}} {{PORT}}''"] s m r
  show ?thesis by simp
qed

section \<open>The invariants hold in every run\<close>

lemma run_invariant:
  assumes "run sh vars sched s = Some s'" and "P s"
    and "\<And>t s s'. P s \<Longrightarrow> step sh vars t s = Some s' \<Longrightarrow> P s'"
  shows "P s'"
  using assms(1,2)
proof (induction sched arbitrary: s)
  case Nil
  then show ?case by simp
next
  case (Cons t sched)
  then show ?case by (auto split: option.splits intro: assms(3))
qed

lemma length_filter_update_same:
  "i < length xs \<Longrightarrow> P (xs ! i) = P y \<Longrightarrow> length (filter P (xs[i := y])) = length (filter P xs)"
  by (induction xs arbitrary: i) (auto split: nat.splits)

lemma length_filter_pos:
  "i < length xs \<Longrightarrow> P (xs ! i) \<Longrightarrow> 0 < length (filter P xs)"
  by (auto simp: filter_empty_conv)

lemma length_filter_update_drop:
  "i < length xs \<Longrightarrow> P (xs ! i) \<Longrightarrow> \<not> P y \<Longrightarrow>
     length (filter P (xs[i := y])) = length (filter P xs) - 1"
proof (induction xs arbitrary: i)
  case Nil
  then show ?case by simp
next
  case (Cons a xs)
  show ?case
  proof (cases i)
    case 0
    with Cons.prems show ?thesis by simp
  next
    case (Suc j)
    with Cons.prems have j: "j < length xs" "P (xs ! j)" by simp_all
    from Cons.IH [OF j Cons.prems(3)] length_filter_pos [of j xs P, OF j] Suc show ?thesis
      by simp
  qed
qed

lemma main_step_counts:
  "main_step sh vars s = Some s' \<Longrightarrow> inv_counts s \<Longrightarrow> inv_counts s'"
  unfolding main_step_def
  by (erule main_pc_step.elims)
     (auto simp: inv_counts_def moduleSyncChanCap_def split: if_splits prod.splits)

lemma go_step_counts:
  assumes "go_step sh vars i s = Some s'" and "inv_counts s"
  shows "inv_counts s'"
proof -
  from assms(1) have i: "i < length (gors s)"
    and st: "go_pc_step sh vars i (gors s ! i) (gpc (gors s ! i)) s = Some s'"
    by (auto simp: go_step_def split: if_splits)
  from st i assms(2) show ?thesis
    by (cases rule: go_pc_step.elims)
       (auto simp: inv_counts_def length_filter_update_same length_filter_update_drop
          split: if_splits prod.splits)
qed


lemma rt_step_cases:
  assumes "rt_step sh t n silent vars pc w = (pc', evs, w')"
  obtains c where "pc = Enter c" "pc' = Iter c" "evs = [Running n]" "w' = w"
  | "pc = Iter []" "pc' = Ret False" "evs = [Completed n]" "w' = w"
  | c cs r where "pc = Iter (c # cs)" "pc' = Wait cs" "evs = [CmdStart t n silent c r]"
  | cs e where "pc = Wait cs" "pc' = (if e then Ret True else Iter cs)" "evs = [CmdExit t n e]"
  | e where "pc = Ret e" "pc' = Ret e" "evs = []" "w' = w"
  using assms
  by (cases "(sh, t, n, silent, vars, pc, w)" rule: rt_step.cases)
     (auto simp: Let_def split: prod.splits)

lemma rt_step_cases4 [consumes 2, case_names enter fin launch await]:
  assumes "rt_step sh t n silent vars pc w = (pc', evs, w')" and "\<forall>e. pc \<noteq> Ret e"
  obtains c where "pc = Enter c" "pc' = Iter c" "evs = [Running n]" "w' = w"
  | "pc = Iter []" "pc' = Ret False" "evs = [Completed n]" "w' = w"
  | c cs r where "pc = Iter (c # cs)" "pc' = Wait cs" "evs = [CmdStart t n silent c r]"
  | cs e where "pc = Wait cs" "pc' = (if e then Ret True else Iter cs)" "evs = [CmdExit t n e]"
  using assms by (cases rule: rt_step_cases) auto

lemma main_step_exit:
  "main_step sh vars s = Some s' \<Longrightarrow> inv_counts s \<Longrightarrow> inv_exit s \<Longrightarrow> inv_exit s'"
  unfolding main_step_def
  by (erule main_pc_step.elims)
     (auto simp: inv_exit_def inv_counts_def filter_empty_conv split: if_splits prod.splits)

lemma go_step_exit:
  assumes "go_step sh vars i s = Some s'" and "inv_counts s" and "inv_exit s"
  shows "inv_exit s'"
proof -
  from assms(1) have i: "i < length (gors s)" and ne: "\<not> exited (mpc s)"
    and st: "go_pc_step sh vars i (gors s ! i) (gpc (gors s ! i)) s = Some s'"
    by (auto simp: go_step_def split: if_splits)
  from ne have m: "\<And>c. mpc s \<noteq> M_exit c" by auto
  from st i m assms(2) show ?thesis
    by (cases rule: go_pc_step.elims)
       (auto simp: inv_exit_def inv_counts_def filter_empty_conv split: if_splits prod.splits)
qed

lemma main_step_cases [consumes 1, case_names loop_end skip par seq spawn seq_done seq_rt finish]:
  assumes "main_step sh vars s = Some s'"
  obtains "mpc s = M_loop []" "s' = s\<lparr>mpc := M_wait\<rparr>"
  | task rest where "mpc s = M_loop (task # rest)" "\<not> runnable (taskCompleted s) task"
      "s' = s\<lparr>mpc := M_loop rest, trace := trace s @ [Skipping (Name task)]\<rparr>"
  | task rest where "mpc s = M_loop (task # rest)" "runnable (taskCompleted s) task"
      "Parallel task" "s' = s\<lparr>mpc := M_send task rest\<rparr>"
  | task rest where "mpc s = M_loop (task # rest)" "runnable (taskCompleted s) task"
      "\<not> Parallel task" "s' = s\<lparr>mpc := M_run task (Enter (Cmds task)) rest\<rparr>"
  | task rest where "mpc s = M_send task rest" "chan s < moduleSyncChanCap"
      "s' = s\<lparr>mpc := M_loop rest, chan := chan s + 1, wg := wg s + 1,
                gors := gors s @ [\<lparr>gname = Name task, gsilent = Silent task,
                                   gpc = G_task (Enter (Cmds task))\<rparr>]\<rparr>"
  | task err rest where "mpc s = M_run task (Ret err) rest"
      "s' = s\<lparr>mpc := M_loop rest, errorOccurred := (errorOccurred s \<or> err),
                trace := trace s @ (if err then [Errored (Name task)] else []),
                taskCompleted := (taskCompleted s)(Name task \<mapsto> True)\<rparr>"
  | task pc rest pc' evs w' where "mpc s = M_run task pc rest" "\<forall>e. pc \<noteq> Ret e"
      "rt_step sh MainT (Name task) (Silent task) vars pc (world s) = (pc', evs, w')"
      "s' = s\<lparr>mpc := M_run task pc' rest, trace := trace s @ evs, world := w'\<rparr>"
  | "mpc s = M_wait" "wg s = 0"
      "s' = s\<lparr>mpc := M_exit (if errorOccurred s then 1 else 0),
                trace := trace s @ [if errorOccurred s then ErrorsOccurred else AllCompleted]\<rparr>"
  using assms unfolding main_step_def
  by (erule_tac main_pc_step.elims) (auto split: if_splits prod.splits)

lemma go_step_cases [consumes 1, case_names report rt mark release wgdone panic]:
  assumes "go_step sh vars i s = Some s'"
  obtains err where "i < length (gors s)" "\<not> exited (mpc s)" "gpc (gors s ! i) = G_task (Ret err)"
      "s' = s\<lparr>errorOccurred := (errorOccurred s \<or> err),
                trace := trace s @ (if err then [Errored (gname (gors s ! i))] else []),
                gors := (gors s)[i := (gors s ! i)\<lparr>gpc := G_mark\<rparr>]\<rparr>"
  | pc pc' evs w' where "i < length (gors s)" "\<not> exited (mpc s)" "gpc (gors s ! i) = G_task pc"
      "\<forall>e. pc \<noteq> Ret e"
      "rt_step sh (GoT i) (gname (gors s ! i)) (gsilent (gors s ! i)) vars pc (world s) = (pc', evs, w')"
      "s' = s\<lparr>gors := (gors s)[i := (gors s ! i)\<lparr>gpc := G_task pc'\<rparr>],
                trace := trace s @ evs, world := w'\<rparr>"
  | "i < length (gors s)" "\<not> exited (mpc s)" "gpc (gors s ! i) = G_mark"
      "s' = s\<lparr>taskCompleted := (taskCompleted s)(gname (gors s ! i) \<mapsto> True),
                gors := (gors s)[i := (gors s ! i)\<lparr>gpc := G_release\<rparr>]\<rparr>"
  | "i < length (gors s)" "\<not> exited (mpc s)" "gpc (gors s ! i) = G_release" "chan s > 0"
      "s' = s\<lparr>chan := chan s - 1, gors := (gors s)[i := (gors s ! i)\<lparr>gpc := G_wgdone\<rparr>]\<rparr>"
  | "i < length (gors s)" "\<not> exited (mpc s)" "gpc (gors s ! i) = G_wgdone" "wg s > 0"
      "s' = s\<lparr>wg := wg s - 1, gors := (gors s)[i := (gors s ! i)\<lparr>gpc := G_exit\<rparr>]\<rparr>"
  | "i < length (gors s)" "\<not> exited (mpc s)" "gpc (gors s ! i) = G_wgdone" "wg s = 0"
      "s' = s\<lparr>mpc := M_exit 2\<rparr>"
proof -
  from assms have i: "i < length (gors s)" and ne: "\<not> exited (mpc s)"
    and st: "go_pc_step sh vars i (gors s ! i) (gpc (gors s ! i)) s = Some s'"
    by (auto simp: go_step_def split: if_splits)
  from st i ne that show ?thesis
    by (cases rule: go_pc_step.elims) (auto split: if_splits prod.splits)
qed

lemma go_step_no_panic:
  assumes "inv_counts s" "i < length (gors s)" "gpc (gors s ! i) = G_wgdone" "wg s = 0"
  shows False
proof -
  have "0 < length (filter (\<lambda>g. gpc g \<noteq> G_exit) (gors s))"
    using assms(2,3) by (intro length_filter_pos [of i]) auto
  with assms(1,4) show False by (simp add: inv_counts_def)
qed

lemma gsum_simps [simp]:
  "gsum f [] = 0"
  "gsum f (g # gs) = f g + gsum f gs"
  "gsum f (gs @ gs') = gsum f gs + gsum f gs'"
  by (simp_all add: gsum_def)

lemma gsum_update:
  "i < length gs \<Longrightarrow> gsum f (gs[i := y]) + f (gs ! i) = gsum f gs + f y"
  by (induction gs arbitrary: i) (auto split: nat.splits simp: add_ac)

lemma gsum_update_same:
  fixes f :: "gor \<Rightarrow> 'a::cancel_comm_monoid_add"
  shows "i < length gs \<Longrightarrow> f (gs ! i) = f y \<Longrightarrow> gsum f (gs[i := y]) = gsum f gs"
  using gsum_update [of i gs f y] by simp

lemma gsum_update_drop:
  fixes f :: "gor \<Rightarrow> 'a::cancel_comm_monoid_add"
  shows "i < length gs \<Longrightarrow> f y = 0 \<Longrightarrow> gsum f (gs[i := y]) + f (gs ! i) = gsum f gs"
  using gsum_update [of i gs f y] by simp

lemma failNames_simps [simp]:
  "failNames [] = {#}" "failNames (tr @ tr') = failNames tr + failNames tr'"
  "failNames (e # tr) = failName e + failNames tr"
  by (simp_all add: failNames_def)

lemma errNames_simps [simp]:
  "errNames [] = {#}" "errNames (tr @ tr') = errNames tr + errNames tr'"
  "errNames (e # tr) = errName e + errNames tr"
  by (simp_all add: errNames_def)

lemma main_step_fail:
  assumes "main_step sh vars s = Some s'" and "inv_fail s"
  shows "inv_fail s'"
  using assms(1)
proof (cases rule: main_step_cases)
  case (seq_rt task pc rest pc' evs w')
  from seq_rt(3) show ?thesis
    using seq_rt(1,2,4) assms(2)
    by (cases rule: rt_step_cases) (auto simp: inv_fail_def)
next
  case (seq_done task err rest)
  then show ?thesis using assms(2) by (cases err) (auto simp: inv_fail_def)
qed (use assms(2) in \<open>auto simp: inv_fail_def goPend_def\<close>)

lemma go_step_fail:
  assumes "go_step sh vars i s = Some s'" and "inv_fail s" and "inv_counts s"
  shows "inv_fail s'"
  using assms(1)
proof (cases rule: go_step_cases)
  case (report err)
  from gsum_update [OF report(1), of goPend "(gors s ! i)\<lparr>gpc := G_mark\<rparr>"] report(3)
  have "gsum goPend (gors s') + (if err then {#gname (gors s ! i)#} else {#}) = gsum goPend (gors s)"
    by (simp add: goPend_def report(4))
  with assms(2) show ?thesis
    by (cases err) (auto simp: inv_fail_def report(4))
next
  case (rt pc pc' evs w')
  from gsum_update [OF rt(1), of goPend "(gors s ! i)\<lparr>gpc := G_task pc'\<rparr>"] rt(3,4)
  have g: "gsum goPend (gors s') = gsum goPend (gors s) + (if pc' = Ret True then {#gname (gors s ! i)#} else {#})"
    by (simp add: goPend_def rt(6))
  from rt(5) show ?thesis
    using assms(2) g rt(4)
    by (cases rule: rt_step_cases) (auto simp: inv_fail_def rt(6))
next
  case mark
  from gsum_update_same [OF mark(1), of goPend "(gors s ! i)\<lparr>gpc := G_release\<rparr>"] mark(3)
  have "gsum goPend (gors s') = gsum goPend (gors s)"
    by (simp add: goPend_def mark(4))
  with assms(2) show ?thesis by (simp add: inv_fail_def mark(4))
next
  case release
  from gsum_update_same [OF release(1), of goPend "(gors s ! i)\<lparr>gpc := G_wgdone\<rparr>"] release(3)
  have "gsum goPend (gors s') = gsum goPend (gors s)"
    by (simp add: goPend_def release(5))
  with assms(2) show ?thesis by (simp add: inv_fail_def release(5))
next
  case wgdone
  from gsum_update_same [OF wgdone(1), of goPend "(gors s ! i)\<lparr>gpc := G_exit\<rparr>"] wgdone(3)
  have "gsum goPend (gors s') = gsum goPend (gors s)"
    by (simp add: goPend_def wgdone(5))
  with assms(2) show ?thesis by (simp add: inv_fail_def wgdone(5))
next
  case panic
  with assms(3) show ?thesis using go_step_no_panic by blast
qed

lemma set_updateD: "g \<in> set (xs[i := y]) \<Longrightarrow> g = y \<or> g \<in> set xs"
  using set_update_subset_insert [of xs i y] by auto

lemma skipNames_simps [simp]:
  "skipNames [] = {#}" "skipNames (tr @ tr') = skipNames tr + skipNames tr'"
  "skipNames (e # tr) = skipName e + skipNames tr"
  by (simp_all add: skipNames_def)

lemma runNames_simps [simp]:
  "runNames [] = {#}" "runNames (tr @ tr') = runNames tr + runNames tr'"
  "runNames (e # tr) = runName e + runNames tr"
  by (simp_all add: runNames_def)

lemma main_step_disp:
  assumes "main_step sh vars s = Some s'" and "inv_disp config s"
  shows "inv_disp config s'"
  using assms(1)
proof (cases rule: main_step_cases)
  case (seq_rt task pc rest pc' evs w')
  from seq_rt(3) show ?thesis
    using seq_rt(1,2,4) assms(2)
    by (cases rule: rt_step_cases) (auto simp: inv_disp_def)
qed (use assms(2) in \<open>auto simp: inv_disp_def\<close>)

lemma go_step_disp:
  assumes "go_step sh vars i s = Some s'" and "inv_disp config s" and "inv_counts s"
  shows "inv_disp config s'"
  using assms(1)
proof (cases rule: go_step_cases)
  case (report err)
  from gsum_update_same [OF report(1), of goEnter "(gors s ! i)\<lparr>gpc := G_mark\<rparr>"] report(3)
  have "gsum goEnter (gors s') = gsum goEnter (gors s)"
    by (simp add: report(4))
  with assms(2) show ?thesis
    by (cases err) (auto simp: inv_disp_def report(4))
next
  case (rt pc pc' evs w')
  from rt(5,4) show ?thesis
  proof (cases rule: rt_step_cases4)
    case (enter c)
    from gsum_update_drop [OF rt(1), of goEnter "(gors s ! i)\<lparr>gpc := G_task pc'\<rparr>"] rt(3) enter
    have "gsum goEnter (gors s') + {#gname (gors s ! i)#} = gsum goEnter (gors s)"
      by (simp add: rt(6))
    with assms(2) enter show ?thesis by (auto simp: inv_disp_def rt(6))
  next
    case fin
    from gsum_update_same [OF rt(1), of goEnter "(gors s ! i)\<lparr>gpc := G_task pc'\<rparr>"] rt(3) fin
    have "gsum goEnter (gors s') = gsum goEnter (gors s)"
      by (simp add: rt(6))
    with assms(2) fin show ?thesis by (auto simp: inv_disp_def rt(6))
  next
    case (launch c cs r)
    from gsum_update_same [OF rt(1), of goEnter "(gors s ! i)\<lparr>gpc := G_task pc'\<rparr>"] rt(3) launch
    have "gsum goEnter (gors s') = gsum goEnter (gors s)"
      by (simp add: rt(6))
    with assms(2) launch show ?thesis by (auto simp: inv_disp_def rt(6))
  next
    case (await cs e)
    from gsum_update_same [OF rt(1), of goEnter "(gors s ! i)\<lparr>gpc := G_task pc'\<rparr>"] rt(3) await
    have "gsum goEnter (gors s') = gsum goEnter (gors s)"
      by (simp add: rt(6))
    with assms(2) await show ?thesis by (auto simp: inv_disp_def rt(6))
  qed
next
  case mark
  from gsum_update_same [OF mark(1), of goEnter "(gors s ! i)\<lparr>gpc := G_release\<rparr>"] mark(3)
  have "gsum goEnter (gors s') = gsum goEnter (gors s)"
    by (simp add: mark(4))
  with assms(2) show ?thesis by (simp add: inv_disp_def mark(4))
next
  case release
  from gsum_update_same [OF release(1), of goEnter "(gors s ! i)\<lparr>gpc := G_wgdone\<rparr>"] release(3)
  have "gsum goEnter (gors s') = gsum goEnter (gors s)"
    by (simp add: release(5))
  with assms(2) show ?thesis by (simp add: inv_disp_def release(5))
next
  case wgdone
  from gsum_update_same [OF wgdone(1), of goEnter "(gors s ! i)\<lparr>gpc := G_exit\<rparr>"] wgdone(3)
  have "gsum goEnter (gors s') = gsum goEnter (gors s)"
    by (simp add: wgdone(5))
  with assms(2) show ?thesis by (simp add: inv_disp_def wgdone(5))
next
  case panic
  with assms(3) show ?thesis using go_step_no_panic by blast
qed

lemma pcStarted_mono: "pcStarted pc n R \<Longrightarrow> pcStarted pc n (R + X)"
  by (cases "(pc, n, R)" rule: pcStarted.cases) auto

lemma pcStarted_add: "pcStarted pc n R \<Longrightarrow> pcStarted pc n (add_mset x R)"
  by (cases "(pc, n, R)" rule: pcStarted.cases) auto

lemma main_step_started:
  assumes "main_step sh vars s = Some s'" and "inv_started s"
  shows "inv_started s'"
  using assms(1)
proof (cases rule: main_step_cases)
  case (seq_rt task pc rest pc' evs w')
  from seq_rt(3,2) show ?thesis
    using seq_rt(1,4) assms(2)
    by (cases rule: rt_step_cases4) (auto simp: inv_started_def intro: pcStarted_mono pcStarted_add)
qed (use assms(2) in \<open>auto simp: inv_started_def intro: pcStarted_mono pcStarted_add\<close>)

lemma go_step_started:
  assumes "go_step sh vars i s = Some s'" and "inv_started s" and "inv_counts s"
  shows "inv_started s'"
  using assms(1)
proof (cases rule: go_step_cases)
  case (report err)
  have g: "pcStarted (gpc (gors s ! i)) (gname (gors s ! i)) (runNames (trace s))"
    using assms(2) report(1) by (simp add: inv_started_def)
  show ?thesis using assms(2) g report(3)
    by (cases err) (auto simp: inv_started_def report(4) dest!: set_updateD)
next
  case (rt pc pc' evs w')
  have g: "pcStarted (gpc (gors s ! i)) (gname (gors s ! i)) (runNames (trace s))"
    using assms(2) rt(1) by (simp add: inv_started_def)
  from rt(5,4) show ?thesis using assms(2) g rt(3)
    by (cases rule: rt_step_cases4)
       (auto simp: inv_started_def rt(6) dest!: set_updateD intro: pcStarted_mono pcStarted_add
          elim: mainStarted.elims)
next
  case mark
  have g: "pcStarted (gpc (gors s ! i)) (gname (gors s ! i)) (runNames (trace s))"
    using assms(2) mark(1) by (simp add: inv_started_def)
  show ?thesis using assms(2) g mark(3)
    by (auto simp: inv_started_def mark(4) dest!: set_updateD)
next
  case release
  show ?thesis using assms(2)
    by (auto simp: inv_started_def release(5) dest!: set_updateD)
next
  case wgdone
  show ?thesis using assms(2)
    by (auto simp: inv_started_def wgdone(5) dest!: set_updateD)
next
  case panic
  with assms(3) show ?thesis using go_step_no_panic by blast
qed

lemma main_step_active:
  assumes "main_step sh vars s = Some s'" and "inv_active s"
  shows "inv_active s'"
  using assms(1)
proof (cases rule: main_step_cases)
  case (seq_rt task pc rest pc' evs w')
  from seq_rt(3,2) show ?thesis
    using seq_rt(1,4) assms(2)
    by (cases rule: rt_step_cases4) (auto simp: inv_active_def activeNames_def)
qed (use assms(2) in \<open>auto simp: inv_active_def activeNames_def completed_def\<close>)

lemma go_step_active:
  assumes "go_step sh vars i s = Some s'" and "inv_active s" and "inv_counts s"
  shows "inv_active s'"
  using assms(1)
proof (cases rule: go_step_cases)
  case (report err)
  from gsum_update_same [OF report(1), of goActive "(gors s ! i)\<lparr>gpc := G_mark\<rparr>"] report(3)
  have "gsum goActive (gors s') = gsum goActive (gors s)"
    by (simp add: report(4))
  with assms(2) show ?thesis
    by (cases err) (auto simp: inv_active_def activeNames_def report(4))
next
  case (rt pc pc' evs w')
  from gsum_update [OF rt(1), of goActive "(gors s ! i)\<lparr>gpc := G_task pc'\<rparr>"] rt(3)
  have a: "gsum goActive (gors s') = gsum goActive (gors s)"
    by (simp add: rt(6))
  have m: "gname (gors s ! i) \<in># gsum goActive (gors s)"
    using gsum_update [OF rt(1), of goActive "(gors s ! i)\<lparr>gpc := G_exit\<rparr>"] rt(3)
    by (simp, metis union_single_eq_member)
  from rt(5,4) show ?thesis using assms(2) a m
    by (cases rule: rt_step_cases4) (auto simp: inv_active_def activeNames_def rt(6))
next
  case mark
  from gsum_update [OF mark(1), of goActive "(gors s ! i)\<lparr>gpc := G_release\<rparr>"] mark(3)
  have "gsum goActive (gors s) = add_mset (gname (gors s ! i)) (gsum goActive (gors s'))"
    by (simp add: mark(4))
  with assms(2) show ?thesis
    by (auto simp: inv_active_def activeNames_def mark(4) completed_def)
next
  case release
  from gsum_update_same [OF release(1), of goActive "(gors s ! i)\<lparr>gpc := G_wgdone\<rparr>"] release(3)
  have "gsum goActive (gors s') = gsum goActive (gors s)"
    by (simp add: release(5))
  with assms(2) show ?thesis by (simp add: inv_active_def activeNames_def release(5))
next
  case wgdone
  from gsum_update_same [OF wgdone(1), of goActive "(gors s ! i)\<lparr>gpc := G_exit\<rparr>"] wgdone(3)
  have "gsum goActive (gors s') = gsum goActive (gors s)"
    by (simp add: wgdone(5))
  with assms(2) show ?thesis by (simp add: inv_active_def activeNames_def wgdone(5))
next
  case panic
  with assms(3) show ?thesis using go_step_no_panic by blast
qed

lemma goIds_simps [simp]:
  "goIds [] = []" "goIds (tr @ tr') = goIds tr @ goIds tr'" "goIds (e # tr) = goId e @ goIds tr"
  by (simp_all add: goIds_def)

lemma subseq_skip_mid: "subseq (xs @ ys) (xs @ y # ys)"
  by (induction xs) auto

lemma subseq_drop_mid:
  assumes "subseq (xs @ y # ys) zs"
  shows "subseq (xs @ ys) zs"
  using subseq_skip_mid [of xs ys y] assms by (rule subseq_order.trans)

lemma map_gname_update:
  "i < length gs \<Longrightarrow> map gname (gs[i := (gs ! i)\<lparr>gpc := p\<rparr>]) = map gname gs"
  by (induction gs arbitrary: i) (auto split: nat.splits)

lemma main_step_order:
  assumes "main_step sh vars s = Some s'" and "inv_order config s" and "inv_counts s"
  shows "inv_order config s'"
  using assms(1)
proof (cases rule: main_step_cases)
  case loop_end
  with assms(2) show ?thesis by (simp add: inv_order_def)
next
  case (skip task rest)
  from assms(2) have "subseq (map gname (gors s) @ Name task # map Name rest) (map Name (Tasks config))"
    by (simp add: inv_order_def skip(1))
  then have "subseq (map gname (gors s) @ map Name rest) (map Name (Tasks config))"
    by (rule subseq_drop_mid)
  with assms(2) show ?thesis by (simp add: inv_order_def skip(3))
next
  case (par task rest)
  with assms(2) show ?thesis by (simp add: inv_order_def)
next
  case (seq task rest)
  from assms(2) have "subseq (map gname (gors s) @ Name task # map Name rest) (map Name (Tasks config))"
    by (simp add: inv_order_def seq(1))
  then have "subseq (map gname (gors s) @ map Name rest) (map Name (Tasks config))"
    by (rule subseq_drop_mid)
  with assms(2) show ?thesis by (simp add: inv_order_def seq(4))
next
  case (spawn task rest)
  from spawn(2) assms(3) have "filter (\<lambda>g. holdsSlot (gpc g)) (gors s) = []"
    by (simp add: inv_counts_def moduleSyncChanCap_def)
  then have "\<forall>g \<in> set (gors s). \<not> holdsSlot (gpc g)"
    by (simp add: filter_empty_conv)
  with assms(2) show ?thesis
    by (simp add: inv_order_def spawn(1,3) less_Suc_eq)
next
  case (seq_done task err rest)
  with assms(2) show ?thesis by (simp add: inv_order_def)
next
  case (seq_rt task pc rest pc' evs w')
  from seq_rt(3,2) have "goIds evs = []"
    by (cases rule: rt_step_cases4) simp_all
  with assms(2) show ?thesis by (simp add: inv_order_def seq_rt(1,4))
next
  case finish
  with assms(2) show ?thesis by (simp add: inv_order_def)
qed

lemma holder_is_last:
  assumes "inv_order config s" "i < length (gors s)" "holdsSlot (gpc (gors s ! i))"
  shows "Suc i = length (gors s)"
proof (rule ccontr)
  assume "Suc i \<noteq> length (gors s)"
  with assms(2) have "i < length (butlast (gors s))" by simp
  then have "butlast (gors s) ! i \<in> set (butlast (gors s))" by (rule nth_mem)
  moreover have "butlast (gors s) ! i = gors s ! i"
    using \<open>i < length (butlast (gors s))\<close> by (simp add: nth_butlast)
  ultimately show False using assms(1,3) by (auto simp: inv_order_def)
qed

lemma butlast_update_keeps:
  assumes "\<forall>g \<in> set (butlast xs). P g" "i < length xs" "Suc i = length xs \<or> P y"
  shows "\<forall>g \<in> set (butlast (xs[i := y])). P g"
  using assms by (auto simp: butlast_list_update dest!: set_updateD)

lemma sorted_snoc_last:
  "sorted ids \<Longrightarrow> \<forall>j \<in> set ids. j < n \<Longrightarrow> Suc i = n \<Longrightarrow> sorted (ids @ [i])"
  by (auto simp: sorted_append)

lemma go_step_order:
  assumes "go_step sh vars i s = Some s'" and "inv_order config s" and "inv_counts s"
  shows "inv_order config s'"
  using assms(1)
proof (cases rule: go_step_cases)
  case (report err)
  have l: "Suc i = length (gors s)"
    using holder_is_last [OF assms(2) report(1)] report(3) by simp
  from butlast_update_keeps [of "gors s" "\<lambda>g. \<not> holdsSlot (gpc g)" i] l report(1) assms(2)
  have "\<forall>g \<in> set (butlast (gors s')). \<not> holdsSlot (gpc g)"
    by (simp add: inv_order_def report(4))
  with assms(2) show ?thesis
    by (cases err) (simp_all add: inv_order_def report(4) map_gname_update report(1))
next
  case (rt pc pc' evs w')
  have l: "Suc i = length (gors s)"
    using holder_is_last [OF assms(2) rt(1)] rt(3) by simp
  from butlast_update_keeps [of "gors s" "\<lambda>g. \<not> holdsSlot (gpc g)" i] l rt(1) assms(2)
  have b: "\<forall>g \<in> set (butlast (gors s')). \<not> holdsSlot (gpc g)"
    by (simp add: inv_order_def rt(6))
  have n: "map gname (gors s') = map gname (gors s)"
    by (simp add: rt(6) map_gname_update rt(1))
  from rt(5,4) have "goIds evs = [] \<or> goIds evs = [i]"
    by (cases rule: rt_step_cases4) simp_all
  then show ?thesis
  proof
    assume "goIds evs = []"
    with assms(2) b n show ?thesis by (simp add: inv_order_def rt(6))
  next
    assume e: "goIds evs = [i]"
    have "sorted (goIds (trace s) @ [i])"
      using assms(2) l by (intro sorted_snoc_last [of _ "length (gors s)"]) (simp_all add: inv_order_def)
    with assms(2) b n e rt(1) show ?thesis by (simp add: inv_order_def rt(6))
  qed
next
  case mark
  have l: "Suc i = length (gors s)"
    using holder_is_last [OF assms(2) mark(1)] mark(3) by simp
  from butlast_update_keeps [of "gors s" "\<lambda>g. \<not> holdsSlot (gpc g)" i] l mark(1) assms(2)
  have "\<forall>g \<in> set (butlast (gors s')). \<not> holdsSlot (gpc g)"
    by (simp add: inv_order_def mark(4))
  with assms(2) show ?thesis
    by (simp add: inv_order_def mark(4) map_gname_update mark(1))
next
  case release
  from butlast_update_keeps [of "gors s" "\<lambda>g. \<not> holdsSlot (gpc g)" i "(gors s ! i)\<lparr>gpc := G_wgdone\<rparr>"]
    release(1) assms(2)
  have "\<forall>g \<in> set (butlast (gors s')). \<not> holdsSlot (gpc g)"
    by (simp add: inv_order_def release(5))
  with assms(2) show ?thesis
    by (simp add: inv_order_def release(5) map_gname_update release(1))
next
  case wgdone
  from butlast_update_keeps [of "gors s" "\<lambda>g. \<not> holdsSlot (gpc g)" i "(gors s ! i)\<lparr>gpc := G_exit\<rparr>"]
    wgdone(1) assms(2)
  have "\<forall>g \<in> set (butlast (gors s')). \<not> holdsSlot (gpc g)"
    by (simp add: inv_order_def wgdone(5))
  with assms(2) show ?thesis
    by (simp add: inv_order_def wgdone(5) map_gname_update wgdone(1))
next
  case panic
  with assms(3) show ?thesis using go_step_no_panic by blast
qed

section \<open>Every run ends\<close>












lemma main_step_code:
  "main_step sh vars s = Some s' \<Longrightarrow> inv_code s \<Longrightarrow> inv_code s'"
  by (erule main_step_cases) (auto simp: inv_code_def)

lemma go_step_code:
  assumes "go_step sh vars i s = Some s'" and "inv_code s" and "inv_counts s"
  shows "inv_code s'"
  using assms(1)
proof (cases rule: go_step_cases)
  case panic
  with assms(3) show ?thesis using go_step_no_panic by blast
qed (use assms(2) in \<open>auto simp: inv_code_def\<close>)

lemma rt_step_skipNames:
  "rt_step sh t n silent vars pc w = (pc', evs, w') \<Longrightarrow> skipNames evs = {#}"
  by (erule rt_step_cases) auto

lemma main_step_skip:
  assumes "main_step sh vars s = Some s'" and "inv_skip config s"
  shows "inv_skip config s'"
  using assms(1)
proof (cases rule: main_step_cases)
  case (skip task rest)
  then have "Required task \<noteq> []" by (auto simp: runnable_def)
  with skip assms(2) show ?thesis by (auto simp: inv_skip_def)
next
  case (seq_rt task pc rest pc' evs w')
  from rt_step_skipNames [OF seq_rt(3)] assms(2) show ?thesis
    by (simp add: inv_skip_def seq_rt(1,4))
qed (use assms(2) in \<open>auto simp: inv_skip_def\<close>)

lemma go_step_skip:
  assumes "go_step sh vars i s = Some s'" and "inv_skip config s"
  shows "inv_skip config s'"
  using assms(1)
proof (cases rule: go_step_cases)
  case (rt pc pc' evs w')
  from rt_step_skipNames [OF rt(5)] assms(2) show ?thesis
    by (simp add: inv_skip_def rt(6))
next
  case (report err)
  with assms(2) show ?thesis by (cases err) (simp_all add: inv_skip_def)
qed (use assms(2) in \<open>simp_all add: inv_skip_def\<close>)

lemma inv_init: "run_inv config (init config w)"
  by (simp add: run_inv_def init_def inv_counts_def inv_exit_def inv_code_def inv_fail_def
      inv_disp_def inv_started_def inv_active_def activeNames_def inv_order_def inv_skip_def)

lemma inv_step:
  assumes "step sh vars t s = Some s'" and "run_inv config s"
  shows "run_inv config s'"
proof (cases t)
  case MainT
  with assms(1) have m: "main_step sh vars s = Some s'" by simp
  from assms(2) show ?thesis
    unfolding run_inv_def
    by (auto intro: main_step_counts [OF m] main_step_exit [OF m] main_step_code [OF m]
        main_step_fail [OF m] main_step_disp [OF m] main_step_started [OF m]
        main_step_active [OF m] main_step_order [OF m] main_step_skip [OF m])
next
  case (GoT i)
  with assms(1) have g: "go_step sh vars i s = Some s'" by simp
  from assms(2) show ?thesis
    unfolding run_inv_def
    by (auto intro: go_step_counts [OF g] go_step_exit [OF g] go_step_code [OF g]
        go_step_fail [OF g] go_step_disp [OF g] go_step_started [OF g]
        go_step_active [OF g] go_step_order [OF g] go_step_skip [OF g])
qed

lemma inv_run: "run sh vars sched s = Some s' \<Longrightarrow> run_inv config s \<Longrightarrow> run_inv config s'"
  by (erule run_invariant) (auto intro: inv_step)

lemma inv_runAllTasks: "runAllTasks sh config vars sched w = Some s \<Longrightarrow> run_inv config s"
  unfolding runAllTasks_def by (erule inv_run) (rule inv_init)

section \<open>The trace is what the outside world did\<close>

lemma replay_append:
  "replay sh vars (evs @ evs') w =
     (case replay sh vars evs w of None \<Rightarrow> None | Some w1 \<Rightarrow> replay sh vars evs' w1)"
  by (induction sh vars evs w rule: replay.induct) (simp_all split: prod.splits)

lemma rt_step_replay:
  "rt_step sh t n silent vars pc w = (pc', evs, w') \<Longrightarrow> replay sh vars evs w = Some w'"
  by (cases "(sh, t, n, silent, vars, pc, w)" rule: rt_step.cases)
     (auto simp: Let_def split: prod.splits)

lemma main_step_replay:
  assumes "main_step sh vars s = Some s'" and "replay sh vars (trace s) w0 = Some (world s)"
  shows "replay sh vars (trace s') w0 = Some (world s')"
  using assms(1)
proof (cases rule: main_step_cases)
  case (seq_rt task pc rest pc' evs w')
  with assms(2) rt_step_replay [OF seq_rt(3)] show ?thesis
    by (simp add: replay_append)
qed (use assms(2) in \<open>simp_all add: replay_append\<close>)

lemma go_step_replay:
  assumes "go_step sh vars i s = Some s'" and "replay sh vars (trace s) w0 = Some (world s)"
  shows "replay sh vars (trace s') w0 = Some (world s')"
  using assms(1)
proof (cases rule: go_step_cases)
  case (rt pc pc' evs w')
  with assms(2) rt_step_replay [OF rt(5)] show ?thesis
    by (simp add: replay_append)
qed (use assms(2) in \<open>simp_all add: replay_append\<close>)

lemma step_replay:
  "step sh vars t s = Some s' \<Longrightarrow> replay sh vars (trace s) w0 = Some (world s) \<Longrightarrow>
     replay sh vars (trace s') w0 = Some (world s')"
  by (cases t) (auto intro: main_step_replay go_step_replay)

lemma run_replay:
  assumes "run sh vars sched s = Some s'" and "replay sh vars (trace s) w0 = Some (world s)"
  shows "replay sh vars (trace s') w0 = Some (world s')"
  by (rule run_invariant [OF assms(1), where P = "\<lambda>s. replay sh vars (trace s) w0 = Some (world s)"])
     (use assms(2) in \<open>auto intro: step_replay\<close>)

lemma runAllTasks_replay:
  "runAllTasks sh config vars sched w = Some s \<Longrightarrow> replay sh vars (trace s) w = Some (world s)"
  unfolding runAllTasks_def by (erule run_replay) (simp add: init_def)

lemma rt_step_goEvent:
  assumes "rt_step sh t n silent vars pc w = (pc', evs, w')" and "e \<in> set evs"
    and "goEvent e = Some (i, m)"
  shows "t = GoT i \<and> m = n"
  using assms by (cases rule: rt_step_cases) (auto split: if_splits elim: goEvent.elims)

lemma gname_update:
  "j < length gs \<Longrightarrow> gname (gs[i := (gs ! i)\<lparr>gpc := x\<rparr>] ! j) = gname (gs ! j)"
  by (cases "i = j") simp_all

lemma main_step_names:
  assumes "main_step sh vars s = Some s'" and "inv_names s"
  shows "inv_names s'"
  using assms(1)
proof (cases rule: main_step_cases)
  case (spawn task rest)
  with assms(2) show ?thesis by (auto simp: inv_names_def nth_append)
next
  case (seq_rt task pc rest pc' evs w')
  from rt_step_goEvent [OF seq_rt(3)] have "\<And>e i m. e \<in> set evs \<Longrightarrow> goEvent e \<noteq> Some (i, m)"
    by blast
  with assms(2) seq_rt(4) show ?thesis by (auto simp: inv_names_def)
qed (use assms(2) in \<open>auto simp: inv_names_def\<close>)

lemma go_step_names:
  assumes "go_step sh vars i s = Some s'" and "inv_names s"
  shows "inv_names s'"
  using assms(1)
proof (cases rule: go_step_cases)
  case (rt pc pc' evs w')
  show ?thesis
    unfolding inv_names_def
  proof (intro ballI allI impI)
    fix e j m
    assume e: "e \<in> set (trace s')" and g: "goEvent e = Some (j, m)"
    from e rt(6) consider "e \<in> set (trace s)" | "e \<in> set evs" by auto
    then show "j < length (gors s') \<and> gname (gors s' ! j) = m"
    proof cases
      case 1
      with assms(2) g have "j < length (gors s)" "gname (gors s ! j) = m"
        by (auto simp: inv_names_def)
      then show ?thesis by (simp add: rt(6) gname_update)
    next
      case 2
      from rt_step_goEvent [OF rt(5) 2 g] have "j = i" "m = gname (gors s ! i)" by auto
      with rt(1) show ?thesis by (simp add: rt(6))
    qed
  qed
qed (use assms(2) in \<open>auto simp: inv_names_def gname_update\<close>)

lemma runAllTasks_names:
  assumes "runAllTasks sh config vars sched w = Some s"
  shows "inv_names s"
proof -
  have "inv_names (init config w)" by (simp add: inv_names_def init_def)
  moreover have "inv_names x'" if "inv_names x" "step sh vars t x = Some x'" for t x x'
    using that by (cases t) (auto intro: main_step_names go_step_names)
  ultimately show ?thesis
    using assms unfolding runAllTasks_def
    by (rule_tac run_invariant [where P = inv_names]) auto
qed

section \<open>Properties of the pass over the tasks\<close>


lemma allRequiredCompleted_iff:
  "allRequiredCompleted tc reqs \<longleftrightarrow> (\<forall>r \<in> set reqs. completed tc r)"
  by (induction reqs) auto

lemma runnable_iff: "runnable tc task \<longleftrightarrow> (\<forall>r \<in> set (Required task). completed tc r)"
  by (cases "Required task") (simp_all add: runnable_def allRequiredCompleted_iff)


lemma step_keeps_marks:
  "step sh vars t s = Some s' \<Longrightarrow> taskCompleted s n \<noteq> None \<Longrightarrow> taskCompleted s' n \<noteq> None"
proof (cases t)
  case MainT
  assume "step sh vars t s = Some s'" "taskCompleted s n \<noteq> None"
  with MainT show ?thesis by (auto elim!: main_step_cases)
next
  case (GoT i)
  assume "step sh vars t s = Some s'" "taskCompleted s n \<noteq> None"
  with GoT show ?thesis by (auto elim!: go_step_cases)
qed

lemma run_keeps_marks:
  assumes "run sh vars sched s = Some s'" and "taskCompleted s n \<noteq> None"
  shows "taskCompleted s' n \<noteq> None"
proof (rule run_invariant [OF assms(1), where P = "\<lambda>s. taskCompleted s n \<noteq> None"])
  show "taskCompleted s n \<noteq> None" by (rule assms(2))
next
  fix t s1 s2
  assume "taskCompleted s1 n \<noteq> None" "step sh vars t s1 = Some s2"
  then show "taskCompleted s2 n \<noteq> None" by (rule step_keeps_marks [rotated])
qed

lemma step_trace_prefix: "step sh vars t s = Some s' \<Longrightarrow> prefix (trace s) (trace s')"
proof (cases t)
  case MainT
  assume "step sh vars t s = Some s'"
  with MainT show ?thesis by (auto elim!: main_step_cases)
next
  case (GoT i)
  assume "step sh vars t s = Some s'"
  with GoT show ?thesis by (auto elim!: go_step_cases)
qed

lemma run_trace_prefix: "run sh vars sched s = Some s' \<Longrightarrow> prefix (trace s) (trace s')"
proof (induction sched arbitrary: s)
  case Nil
  then show ?case by simp
next
  case (Cons t sched)
  then obtain s1 where st: "step sh vars t s = Some s1" and r: "run sh vars sched s1 = Some s'"
    by (auto split: option.splits)
  from step_trace_prefix [OF st] Cons.IH [OF r] show ?case by (rule prefix_order.trans)
qed


text \<open>
  Claim C6. A task without requirements passes the check whatever \<^verbatim>\<open>taskCompleted\<close>
  holds, and the step of the main thread at the head of the loop dispatches it: to the
  send on the channel when it is parallel, into \<open>runTask\<close> otherwise.
\<close>

theorem empty_required_runnable:
  assumes "Required task = []"
  shows "runnable tc task \<and>
         (mpc s = M_loop (task # rest) \<longrightarrow>
            main_step sh vars s =
              Some (s\<lparr>mpc := (if Parallel task then M_send task rest
                              else M_run task (Enter (Cmds task)) rest)\<rparr>))"
  using assms by (simp add: runnable_def main_step_def)


lemma distinct_count_le_1: "distinct xs \<Longrightarrow> count (mset xs) x \<le> 1"
  by (simp add: distinct_count_atmost_1)

text \<open>
  Claim C5, amended. A task with a requirement that is not completed when it is checked
  is skipped, and the skip writes nothing to \<^verbatim>\<open>taskCompleted\<close>. A requirement that is the
  name of no task declared earlier is not completed at the check. When the names of the
  tasks are distinct, the entry of a skipped task is never set, in this state and in
  every later one (the trace only grows), so every task that requires it is not
  runnable.
\<close>

theorem skipped_task_not_completed:
  assumes "runAllTasks sh config vars sched w = Some s"
  shows "(\<forall>task rest. mpc s = M_loop (task # rest) \<longrightarrow>
            (\<exists>r \<in> set (Required task). \<not> completed (taskCompleted s) r) \<longrightarrow>
            main_step sh vars s =
              Some (s\<lparr>mpc := M_loop rest, trace := trace s @ [Skipping (Name task)]\<rparr>)) \<and>
         (\<forall>pre task rest r. Tasks config = pre @ task # rest \<longrightarrow> mpc s = M_loop (task # rest) \<longrightarrow>
            r \<in> set (Required task) \<longrightarrow> r \<notin> Name ` set pre \<longrightarrow>
            \<not> completed (taskCompleted s) r) \<and>
         (distinct (map Name (Tasks config)) \<longrightarrow>
            (\<forall>n. n \<in># skipNames (trace s) \<longrightarrow>
               taskCompleted s n = None \<and>
               (\<forall>d. n \<in> set (Required d) \<longrightarrow> \<not> runnable (taskCompleted s) d))) \<and>
         (\<forall>sched' s'. run sh vars sched' s = Some s' \<longrightarrow>
            prefix (trace s) (trace s') \<and>
            (\<forall>n. taskCompleted s n \<noteq> None \<longrightarrow> taskCompleted s' n \<noteq> None))"
proof -
  from inv_runAllTasks [OF assms] have i: "run_inv config s" .
  then have d: "inv_disp config s" and st: "inv_started s" by (simp_all add: run_inv_def)
  have 1: "main_step sh vars s =
              Some (s\<lparr>mpc := M_loop rest, trace := trace s @ [Skipping (Name task)]\<rparr>)"
    if "mpc s = M_loop (task # rest)" "\<exists>r \<in> set (Required task). \<not> completed (taskCompleted s) r"
    for task rest
    using that by (auto simp: main_step_def runnable_iff)
  have 2: "\<not> completed (taskCompleted s) r"
    if t: "Tasks config = pre @ task # rest" and m: "mpc s = M_loop (task # rest)"
      and r: "r \<notin> Name ` set pre"
    for pre task rest r
  proof
    assume "completed (taskCompleted s) r"
    then have "taskCompleted s r \<noteq> None" by (auto simp: completed_def split: option.splits)
    with st have "r \<in># runNames (trace s)" by (simp add: inv_started_def)
    moreover from d t m have "mset (map Name pre) =
        skipNames (trace s) + runNames (trace s) + gsum goEnter (gors s)"
      by (simp add: inv_disp_def)
    ultimately have "r \<in># mset (map Name pre)" by simp
    with r show False by auto
  qed
  have 3: "taskCompleted s n = None \<and> (\<forall>d. n \<in> set (Required d) \<longrightarrow> \<not> runnable (taskCompleted s) d)"
    if dn: "distinct (map Name (Tasks config))" and sk: "n \<in># skipNames (trace s)" for n
  proof -
    have "count (mset (map Name (Tasks config))) n \<le> 1"
      using dn by (rule distinct_count_le_1)
    moreover have "count (mset (map Name (Tasks config))) n \<ge>
        count (skipNames (trace s)) n + count (runNames (trace s)) n"
      using d by (simp add: inv_disp_def)
    moreover from sk have "count (skipNames (trace s)) n \<ge> 1" by (simp add: Suc_le_eq)
    ultimately have "count (runNames (trace s)) n = 0" by linarith
    then have "n \<notin># runNames (trace s)" by (simp add: count_eq_zero_iff)
    with st have n: "taskCompleted s n = None" by (auto simp: inv_started_def)
    then have "\<not> completed (taskCompleted s) n" by (simp add: completed_def)
    then have "\<forall>d. n \<in> set (Required d) \<longrightarrow> \<not> runnable (taskCompleted s) d"
      by (auto simp: runnable_iff)
    with n show ?thesis by simp
  qed
  have 4: "\<forall>sched' s'. run sh vars sched' s = Some s' \<longrightarrow>
            prefix (trace s) (trace s') \<and>
            (\<forall>n. taskCompleted s n \<noteq> None \<longrightarrow> taskCompleted s' n \<noteq> None)"
    using run_trace_prefix run_keeps_marks by blast
  from 1 2 3 4 show ?thesis by blast
qed

lemma subseq_append_self: "subseq xs (xs @ ys)"
  by (induction xs) auto

text \<open>
  Claim C8. The capacity of \<^verbatim>\<open>moduleSyncChan\<close> is 1. In every state of every run at most one
  goroutine holds the slot, and it is the youngest: when the goroutine of a later task
  exists, every earlier one has run all its commands and has received from the channel.
  The trace is in the order of time and is what the outside world did (\<open>replay\<close>). In
  it the starts and ends of the children of the goroutines are in the order of the
  goroutines, each of them belongs to a goroutine that exists at that moment, and it
  carries the name of the task of that goroutine. So every child of an earlier parallel
  task has ended before the first child of a later one starts. The goroutines are
  started in the order in which the tasks are declared.
\<close>

theorem parallel_tasks_serialised:
  assumes "runAllTasks sh config vars sched w = Some s"
  shows "length (filter (\<lambda>g. holdsSlot (gpc g)) (gors s)) \<le> 1 \<and>
         (\<forall>i j. i < j \<longrightarrow> j < length (gors s) \<longrightarrow> \<not> holdsSlot (gpc (gors s ! i))) \<and>
         sorted (goIds (trace s)) \<and>
         (\<forall>e \<in> set (trace s). \<forall>i n. goEvent e = Some (i, n) \<longrightarrow>
            i < length (gors s) \<and> gname (gors s ! i) = n) \<and>
         replay sh vars (trace s) w = Some (world s) \<and>
         subseq (map gname (gors s)) (map Name (Tasks config))"
proof -
  have 0: "replay sh vars (trace s) w = Some (world s)"
    using runAllTasks_replay [OF assms] .
  have 5: "\<forall>e \<in> set (trace s). \<forall>i n. goEvent e = Some (i, n) \<longrightarrow>
            i < length (gors s) \<and> gname (gors s ! i) = n"
    using runAllTasks_names [OF assms] by (simp add: inv_names_def)
  from inv_runAllTasks [OF assms] have i: "run_inv config s" .
  then have c: "inv_counts s" and o: "inv_order config s" by (simp_all add: run_inv_def)
  have 1: "length (filter (\<lambda>g. holdsSlot (gpc g)) (gors s)) \<le> 1"
    using c by (simp add: inv_counts_def moduleSyncChanCap_def)
  have 2: "\<not> holdsSlot (gpc (gors s ! i))" if "i < j" "j < length (gors s)" for i j
  proof
    assume "holdsSlot (gpc (gors s ! i))"
    with holder_is_last [OF o, of i] that show False by simp
  qed
  have 3: "sorted (goIds (trace s))" using o by (simp add: inv_order_def)
  have "subseq (map gname (gors s) @ map Name (todo (mpc s))) (map Name (Tasks config))"
    using o by (simp add: inv_order_def)
  then have 4: "subseq (map gname (gors s)) (map Name (Tasks config))"
    by (rule subseq_order.trans [rotated]) (rule subseq_append_self)
  from 0 1 2 3 4 5 show ?thesis by blast
qed

section \<open>The example runs\<close>

lemmas demo_defs =
  runAllTasks_def init_def main_step_def go_step_def demoShell_def replacePlaceholders_def
  runnable_def completed_def moduleSyncChanCap_def Let_def


lemma run_failedB:
  "runAllTasks demoShell workflowABC Map.empty
     [MainT, MainT, MainT, MainT, MainT, MainT, MainT, MainT, MainT, MainT] [] = Some failedB"
  by (simp add: demo_defs workflowABC_def taskA_def taskB_def taskC_def failedB_def)


lemma run_holdingPar:
  "runAllTasks demoShell workflowPar Map.empty [MainT, MainT, MainT, GoT 0, GoT 0] [] =
   Some holdingPar"
  by (simp add: demo_defs workflowPar_def parA_def parB_def taskC_def holdingPar_def)

lemma run_finalPar:
  "runAllTasks demoShell workflowPar Map.empty
     [MainT, MainT, MainT, GoT 0, GoT 0, GoT 0, GoT 0, GoT 0, GoT 0, GoT 0, MainT, MainT, MainT,
      GoT 1, GoT 1, GoT 1, GoT 1, GoT 1, GoT 1, GoT 1, GoT 1, MainT] [] = Some finalPar"
  by (simp add: demo_defs workflowPar_def parA_def parB_def taskC_def finalPar_def)

lemma run_finalDup:
  "runAllTasks demoShell workflowDup Map.empty
     [MainT, MainT, MainT, MainT, MainT, MainT, MainT] [] = Some finalDup"
  by (simp add: demo_defs workflowDup_def skippedA_def otherA_def finalDup_def)

lemma run_skippedS:
  "runAllTasks demoShell workflowSkip Map.empty [MainT] [] = Some skippedS"
  by (simp add: demo_defs workflowSkip_def taskS_def taskD_def skippedS_def)



theorem empty_required_runnable_witness:
  "runnable Map.empty taskA \<and>
   main_step demoShell Map.empty (init workflowABC []) =
     Some ((init workflowABC ([] :: string))\<lparr>mpc := M_run taskA (Enter [''true'']) [taskB, taskC]\<rparr>)"
  using empty_required_runnable [where task = taskA and s = "init workflowABC ([] :: string)"
          and rest = "[taskB, taskC]" and tc = Map.empty and sh = demoShell and vars = Map.empty]
  by (simp add: taskA_def init_def workflowABC_def)


theorem skipped_task_not_completed_witness:
  "runAllTasks demoShell workflowSkip Map.empty [MainT] [] = Some skippedS \<and>
   \<not> completed (taskCompleted (init workflowSkip [])) ''X'' \<and>
   taskCompleted skippedS ''S'' = None \<and> \<not> runnable (taskCompleted skippedS) taskD \<and>
   main_step demoShell Map.empty skippedS =
     Some (skippedS\<lparr>mpc := M_loop [], trace := trace skippedS @ [Skipping ''D'']\<rparr>)"
proof -
  have r0: "runAllTasks demoShell workflowSkip Map.empty [] [] = Some (init workflowSkip [])"
    by (simp add: runAllTasks_def)
  have "\<not> completed (taskCompleted (init workflowSkip [])) ''X''"
    using skipped_task_not_completed [OF r0]
    by (simp add: workflowSkip_def taskS_def taskD_def init_def)
  moreover have "taskCompleted skippedS ''S'' = None \<and> \<not> runnable (taskCompleted skippedS) taskD"
    using skipped_task_not_completed [OF run_skippedS]
    by (simp add: workflowSkip_def taskS_def taskD_def skippedS_def)
  moreover have "main_step demoShell Map.empty skippedS =
     Some (skippedS\<lparr>mpc := M_loop [], trace := trace skippedS @ [Skipping ''D'']\<rparr>)"
    using skipped_task_not_completed [OF run_skippedS]
    by (simp add: taskD_def skippedS_def completed_def)
  ultimately show ?thesis using run_skippedS by simp
qed

text \<open>
  Claim C5, as the claim states it, fails: names need not be unique. The first task
  \<open>A\<close> requires an undeclared \<open>X\<close> and is skipped, the second task \<open>A\<close> runs, and at the end
  the entry of \<^verbatim>\<open>taskCompleted\<close> for the name of the skipped task is set.
\<close>

theorem skipped_task_completed_counterexample:
  "runAllTasks demoShell workflowDup Map.empty
     [MainT, MainT, MainT, MainT, MainT, MainT, MainT] [] = Some finalDup \<and>
   Name skippedA = ''A'' \<and> Required skippedA = [''X''] \<and>
   Skipping ''A'' \<in> set (trace finalDup) \<and> taskCompleted finalDup ''A'' = Some True"
  using run_finalDup by (simp add: finalDup_def skippedA_def)

theorem parallel_tasks_serialised_witness:
  "runAllTasks demoShell workflowPar Map.empty [MainT, MainT, MainT, GoT 0, GoT 0] [] =
     Some holdingPar \<and>
   runAllTasks demoShell workflowPar Map.empty
     [MainT, MainT, MainT, GoT 0, GoT 0, GoT 0, GoT 0, GoT 0, GoT 0, GoT 0, MainT, MainT, MainT,
      GoT 1, GoT 1, GoT 1, GoT 1, GoT 1, GoT 1, GoT 1, GoT 1, MainT] [] = Some finalPar \<and>
   length (filter (\<lambda>g. holdsSlot (gpc g)) (gors holdingPar)) = 1 \<and>
   main_step demoShell Map.empty holdingPar = None \<and>
   goIds (trace finalPar) = [0, 0, 1, 1] \<and> sorted (goIds (trace finalPar)) \<and>
   \<not> holdsSlot (gpc (gors finalPar ! 0)) \<and>
   subseq [''A'', ''B''] [''A'', ''B'', ''C'']"
  using parallel_tasks_serialised [OF run_holdingPar] parallel_tasks_serialised [OF run_finalPar]
    run_holdingPar run_finalPar
  by (simp add: holdingPar_def finalPar_def main_step_def moduleSyncChanCap_def
      workflowPar_def parA_def parB_def taskC_def)

end
